theory Spec2Isabelle
  imports Main "HOL-Library.AList" "HOL-Library.List_Lexorder" "HOL-Library.Char_ord"
    "HOL-Library.Sublist"
begin

unbundle bit_operations_syntax

section \<open>The ZooKeeper emulator of \<open>zc.zk.testing\<close>\<close>

text \<open>
  The module emulates the C binding \<open>zookeeper\<close>: a tree of \<open>Node\<close> objects, a table
  of sessions and one-shot watch callbacks. The embedding below follows
  \<open>src/zc/zk/testing.py\<close> method by method.

  \<^item> Exceptions are values of \<open>error\<close>; every operation returns its result (or the
    error) together with the state it leaves behind, so that what a raising operation
    has already mutated stays visible.
  \<^item> The constants of the \<open>zookeeper\<close> binding that only tag events are constructors of
    \<open>event\<close> and \<open>zstate\<close>. \<open>zookeeper.EPHEMERAL\<close> and \<open>zc.zk.OPEN_ACL_UNSAFE\<close> are
    defined outside this module and are taken as parameters where they are used.
  \<^item> A callback is an opaque value of type \<open>'w\<close>. Calling it is recorded in the field
    \<open>calls\<close>: the arguments it receives and the tree as it stands at that moment.
    Callbacks are assumed to return normally and not to call back into the emulator.
  \<^item> The lock is omitted: one operation runs at a time.
\<close>

subsection \<open>Strings\<close>

text \<open>\<open>s.split('/')\<close>: the pieces between slashes, always at least one.\<close>

fun str_split :: "string \<Rightarrow> string list" where
  "str_split [] = [[]]"
| "str_split (c # cs) =
     (if c = CHR ''/'' then [] # str_split cs
      else (case str_split cs of
              [] \<Rightarrow> [[c]]
            | w # ws \<Rightarrow> (c # w) # ws))"

text \<open>
  \<open>s.rsplit('/', 1)\<close> unpacked into two names: the text before the last slash and the
  text after it. Without a slash the list has one element and the unpacking raises
  \<open>ValueError\<close>, which is \<open>None\<close> here.
\<close>

definition rsplit :: "string \<Rightarrow> (string \<times> string) option" where
  "rsplit s =
     (if CHR ''/'' \<in> set s
      then Some (rev (tl (dropWhile (\<lambda>c. c \<noteq> CHR ''/'') (rev s))),
                 rev (takeWhile (\<lambda>c. c \<noteq> CHR ''/'') (rev s)))
      else None)"

subsection \<open>Data\<close>

datatype error =
    ZooKeeperException string
  | NoNodeException string
  | NodeExistsException
  | BadVersionException string
  | KeyError string
  | ValueError

datatype event = SESSION_EVENT | CHILD_EVENT | CHANGED_EVENT | DELETED_EVENT

datatype zstate = CONNECTED_STATE

text \<open>A call \<open>w(h, event, state, path)\<close> of a callback \<open>w\<close>.\<close>

datatype 'w invocation = Invoke 'w int event zstate string

text \<open>
  \<open>class Node\<close>. \<open>children\<close> is the dictionary of child nodes, kept as an association
  list with distinct keys; \<open>watchers\<close> and \<open>child_watchers\<close> are tuples of
  \<open>(handle, callback)\<close> pairs. \<open>acls\<close> is the attribute that \<open>create\<close> assigns; it does
  not exist on a node built any other way.
\<close>

datatype ('a, 'w) node =
  Node (data: string)
       (children: "(string \<times> ('a, 'w) node) list")
       (watchers: "(int \<times> 'w) list")
       (child_watchers: "(int \<times> 'w) list")
       (flags: int)
       (aversion: int)
       (acl: 'a)
       (acls: "'a option")

fun set_data :: "string \<Rightarrow> ('a, 'w) node \<Rightarrow> ('a, 'w) node" where
  "set_data v (Node d cs ws cws f av a as) = Node v cs ws cws f av a as"

fun set_children :: "(string \<times> ('a, 'w) node) list \<Rightarrow> ('a, 'w) node \<Rightarrow> ('a, 'w) node" where
  "set_children v (Node d cs ws cws f av a as) = Node d v ws cws f av a as"

fun set_watchers :: "(int \<times> 'w) list \<Rightarrow> ('a, 'w) node \<Rightarrow> ('a, 'w) node" where
  "set_watchers v (Node d cs ws cws f av a as) = Node d cs v cws f av a as"

fun set_child_watchers :: "(int \<times> 'w) list \<Rightarrow> ('a, 'w) node \<Rightarrow> ('a, 'w) node" where
  "set_child_watchers v (Node d cs ws cws f av a as) = Node d cs ws v f av a as"

fun set_flags :: "int \<Rightarrow> ('a, 'w) node \<Rightarrow> ('a, 'w) node" where
  "set_flags v (Node d cs ws cws f av a as) = Node d cs ws cws v av a as"

fun set_aversion :: "int \<Rightarrow> ('a, 'w) node \<Rightarrow> ('a, 'w) node" where
  "set_aversion v (Node d cs ws cws f av a as) = Node d cs ws cws f v a as"

fun set_acl_attr :: "'a \<Rightarrow> ('a, 'w) node \<Rightarrow> ('a, 'w) node" where
  "set_acl_attr v (Node d cs ws cws f av a as) = Node d cs ws cws f av v as"

fun set_acls :: "'a \<Rightarrow> ('a, 'w) node \<Rightarrow> ('a, 'w) node" where
  "set_acls v (Node d cs ws cws f av a as) = Node d cs ws cws f av a (Some v)"

text \<open>
  \<open>Node(data)\<close> with no children: the class attributes give the empty watcher tuples,
  \<open>flags = 0\<close>, \<open>aversion = 0\<close> and \<open>acl = zc.zk.OPEN_ACL_UNSAFE\<close> (the parameter
  \<open>open_acl\<close>).
\<close>

definition Node_init :: "'a \<Rightarrow> string \<Rightarrow> ('a, 'w) node" where
  "Node_init open_acl d = Node d [] [] [] 0 0 open_acl None"

subsection \<open>The methods of \<open>Node\<close>\<close>

text \<open>
  Each method returns the node as it leaves it and the callbacks it has called, in
  order. In each of them every assignment that changes the node comes before the first
  call, so all the calls of one method see the same tree.
\<close>

definition fire :: "event \<Rightarrow> zstate \<Rightarrow> string \<Rightarrow> (int \<times> 'w) list \<Rightarrow> 'w invocation list" where
  "fire ev st p ws = map (\<lambda>(h, w). Invoke w h ev st p) ws"

definition children_changed ::
  "('a, 'w) node \<Rightarrow> int \<Rightarrow> zstate \<Rightarrow> string \<Rightarrow> ('a, 'w) node \<times> 'w invocation list" where
  "children_changed self h st p =
     (let ws = child_watchers self;
          self1 = set_child_watchers [] self
      in (self1, fire CHILD_EVENT st p ws))"

definition changed ::
  "('a, 'w) node \<Rightarrow> int \<Rightarrow> zstate \<Rightarrow> string \<Rightarrow> ('a, 'w) node \<times> 'w invocation list" where
  "changed self h st p =
     (let ws = watchers self;
          self1 = set_watchers [] self
      in (self1, fire CHANGED_EVENT st p ws))"

text \<open>
  \<open>deleted\<close> assigns \<open>self.watchers = ()\<close> twice; \<open>child_watchers\<close> is read for the
  second loop and is not assigned.
\<close>

definition deleted ::
  "('a, 'w) node \<Rightarrow> int \<Rightarrow> zstate \<Rightarrow> string \<Rightarrow> ('a, 'w) node \<times> 'w invocation list" where
  "deleted self h st p =
     (let ws = watchers self;
          self1 = set_watchers [] self;
          calls1 = fire DELETED_EVENT st p ws;
          cws = child_watchers self1;
          self2 = set_watchers [] self1;
          calls2 = fire DELETED_EVENT st p cws
      in (self2, calls1 @ calls2))"

fun clear_watchers :: "int \<Rightarrow> ('a, 'w) node \<Rightarrow> ('a, 'w) node" where
  "clear_watchers h (Node d cs ws cws f av a as) =
     Node d (map (\<lambda>kc. (fst kc, clear_watchers h (snd kc))) cs)
            (filter (\<lambda>hw. fst hw \<noteq> h) ws)
            (filter (\<lambda>hw. fst hw \<noteq> h) cws)
            f av a as"

subsection \<open>The tree\<close>

text \<open>
  A node of the tree is identified by the names on the way to it from the root. The
  source mutates the object that \<open>_traverse\<close> returned; here the changed node is put
  back at the position where \<open>_traverse\<close> found it. This assumes what the constructor
  calls of \<open>setUp\<close> and \<open>create\<close> give: no node object is the child of two parents.
\<close>

fun put_at :: "string list \<Rightarrow> ('a, 'w) node \<Rightarrow> ('a, 'w) node \<Rightarrow> ('a, 'w) node" where
  "put_at [] n r = n"
| "put_at (k # ks) n r =
     (case map_of (children r) k of
        None \<Rightarrow> r
      | Some c \<Rightarrow> set_children (AList.update k (put_at ks n c) (children r)) r)"

text \<open>The loop of \<open>_traverse\<close> over the names: an empty name is skipped.\<close>

fun descend :: "('a, 'w) node \<Rightarrow> string list \<Rightarrow> error + ('a, 'w) node" where
  "descend node [] = Inr node"
| "descend node (name # names) =
     (if name = [] then descend node names
      else (case map_of (children node) name of
              None \<Rightarrow> Inl (NoNodeException ''no node'')
            | Some c \<Rightarrow> descend c names))"

text \<open>The names \<open>_traverse\<close> looks up for a path: the position of the node it returns.\<close>

definition segs :: "string \<Rightarrow> string list" where
  "segs p = filter (\<lambda>name. name \<noteq> []) (tl (str_split p))"

subsection \<open>\<open>class ZooKeeper\<close>\<close>

text \<open>
  \<open>sessions\<close> maps a handle to the set of its ephemeral paths. The set is kept as a
  list without repetitions, and only membership in it is used: the order in which
  Python yields the elements of a set is not the order of this list (see \<open>close\<close>).
  \<open>stdout\<close> collects the lines printed.
\<close>

record ('a, 'w) ZooKeeper =
  connection_string :: string
  root :: "('a, 'w) node"
  sessions :: "(int \<times> string list) list"
  stdout :: "string list"
  calls :: "('w invocation \<times> ('a, 'w) node) list"

definition ZooKeeper_init :: "string \<Rightarrow> ('a, 'w) node \<Rightarrow> ('a, 'w) ZooKeeper" where
  "ZooKeeper_init cs tree =
     \<lparr>connection_string = cs, root = tree, sessions = [], stdout = [], calls = []\<rparr>"

text \<open>\<open>assert_\<close> prints and returns; it raises nothing.\<close>

definition assert_zk :: "bool \<Rightarrow> string \<Rightarrow> ('a, 'w) ZooKeeper \<Rightarrow> ('a, 'w) ZooKeeper" where
  "assert_zk cond mess s =
     (if \<not> cond then s\<lparr>stdout := stdout s @ [''assertion failed:  '' @ mess]\<rparr> else s)"

text \<open>\<open>while handle in self.sessions: handle += 1\<close>.\<close>

function fresh_handle :: "int list \<Rightarrow> int \<Rightarrow> int" where
  "fresh_handle ks h = (if h \<in> set ks then fresh_handle ks (h + 1) else h)"
  by pat_completeness auto
termination
proof (relation "measure (\<lambda>(ks, h). card {k \<in> set ks. h \<le> k})")
  show "wf (measure (\<lambda>(ks, h). card {k \<in> set ks. h \<le> k}))" by simp
next
  fix ks :: "int list" and h :: int
  assume mem: "h \<in> set ks"
  have "h \<in> {k \<in> set ks. h \<le> k}" and "h \<notin> {k \<in> set ks. h + 1 \<le> k}"
    using mem by simp_all
  moreover have "{k \<in> set ks. h + 1 \<le> k} \<subseteq> {k \<in> set ks. h \<le> k}"
    by auto
  ultimately have "{k \<in> set ks. h + 1 \<le> k} \<subset> {k \<in> set ks. h \<le> k}"
    by blast
  then have "card {k \<in> set ks. h + 1 \<le> k} < card {k \<in> set ks. h \<le> k}"
    by (intro psubset_card_mono) simp_all
  then show "((ks, h + 1), (ks, h)) \<in> measure (\<lambda>(ks, h). card {k \<in> set ks. h \<le> k})"
    by simp
qed

declare fresh_handle.simps [simp del]

definition log_calls ::
  "'w invocation list \<Rightarrow> ('a, 'w) node \<Rightarrow> ('w invocation \<times> ('a, 'w) node) list" where
  "log_calls fired tree = map (\<lambda>i. (i, tree)) fired"

definition init ::
  "('a, 'w) ZooKeeper \<Rightarrow> string \<Rightarrow> 'w option \<Rightarrow> (error + unit) \<times> ('a, 'w) ZooKeeper" where
  "init s addr watch =
     (let s1 = assert_zk (addr = connection_string s) addr s;
          handle = fresh_handle (map fst (sessions s1)) 0;
          s2 = s1\<lparr>sessions := AList.update handle [] (sessions s1)\<rparr>;
          s3 = (case watch of
                  None \<Rightarrow> s2
                | Some w \<Rightarrow>
                    s2\<lparr>calls := calls s2 @
                         log_calls [Invoke w handle SESSION_EVENT CONNECTED_STATE []] (root s2)\<rparr>)
      in (Inr (), s3))"

definition check_handle :: "('a, 'w) ZooKeeper \<Rightarrow> int \<Rightarrow> error + unit" where
  "check_handle s handle =
     (if map_of (sessions s) handle = None
      then Inl (ZooKeeperException ''handle out of range'')
      else Inr ())"

definition traverse :: "('a, 'w) ZooKeeper \<Rightarrow> string \<Rightarrow> error + ('a, 'w) node" where
  "traverse s path = descend (root s) (tl (str_split path))"

definition state :: "('a, 'w) ZooKeeper \<Rightarrow> int \<Rightarrow> (error + zstate) \<times> ('a, 'w) ZooKeeper" where
  "state s handle =
     (case check_handle s handle of
        Inl e \<Rightarrow> (Inl e, s)
      | Inr _ \<Rightarrow> (Inr CONNECTED_STATE, s))"

text \<open>\<open>the_paths s handle\<close> is \<open>self.sessions[handle]\<close> for a handle that is in the table.\<close>

definition the_paths :: "('a, 'w) ZooKeeper \<Rightarrow> int \<Rightarrow> string list" where
  "the_paths s handle = (case map_of (sessions s) handle of None \<Rightarrow> [] | Some ps \<Rightarrow> ps)"

definition create ::
  "int \<Rightarrow> 'a \<Rightarrow> ('a, 'w) ZooKeeper \<Rightarrow> int \<Rightarrow> string \<Rightarrow> string \<Rightarrow> 'a \<Rightarrow> int
     \<Rightarrow> (error + string) \<times> ('a, 'w) ZooKeeper" where
  "create EPHEMERAL open_acl s handle path dat acl_arg flags_arg =
     (case check_handle s handle of
        Inl e \<Rightarrow> (Inl e, s)
      | Inr _ \<Rightarrow>
     (case rsplit path of
        None \<Rightarrow> (Inl ValueError, s)
      | Some (base, name) \<Rightarrow>
     (case traverse s base of
        Inl e \<Rightarrow> (Inl e, s)
      | Inr node \<Rightarrow>
     if map_of (children node) name \<noteq> None then (Inl NodeExistsException, s)
     else
       (let newnode = set_flags flags_arg (set_acls acl_arg (Node_init open_acl dat));
            node1 = set_children (AList.update name newnode (children node)) node;
            (node2, fired) = children_changed node1 handle CONNECTED_STATE base;
            root2 = put_at (segs base) node2 (root s);
            s1 = s\<lparr>root := root2, calls := calls s @ log_calls fired root2\<rparr>;
            s2 = (if flags_arg AND EPHEMERAL \<noteq> 0
                  then s1\<lparr>sessions :=
                         AList.update handle (List.insert path (the_paths s1 handle)) (sessions s1)\<rparr>
                  else s1)
        in (Inr path, s2)))))"

text \<open>
  In \<open>delete\<close>, \<open>node\<close> and \<open>bnode\<close> are the same object exactly when the text after
  the last slash is empty: then \<open>_traverse\<close> looks up the same names for \<open>path\<close> and
  for \<open>base\<close>, and \<open>node.deleted\<close> changes the node that stays in the tree. Otherwise
  \<open>node\<close> is the child that \<open>del\<close> has just removed, and what \<open>deleted\<close> assigns to it is
  lost with it.
\<close>

definition delete ::
  "('a, 'w) ZooKeeper \<Rightarrow> int \<Rightarrow> string \<Rightarrow> (error + unit) \<times> ('a, 'w) ZooKeeper" where
  "delete s handle path =
     (case check_handle s handle of
        Inl e \<Rightarrow> (Inl e, s)
      | Inr _ \<Rightarrow>
     (case traverse s path of
        Inl e \<Rightarrow> (Inl e, s)
      | Inr node \<Rightarrow>
     (case rsplit path of
        None \<Rightarrow> (Inl ValueError, s)
      | Some (base, name) \<Rightarrow>
     (case traverse s base of
        Inl e \<Rightarrow> (Inl e, s)
      | Inr bnode \<Rightarrow>
     if map_of (children bnode) name = None then (Inl (KeyError name), s)
     else
       (let bnode1 = set_children (AList.delete name (children bnode)) bnode;
            (node2, fired1) =
               deleted (if name = [] then bnode1 else node) handle CONNECTED_STATE path;
            bnode2 = (if name = [] then node2 else bnode1);
            root1 = put_at (segs base) bnode2 (root s);
            (bnode3, fired2) = children_changed bnode2 handle CONNECTED_STATE base;
            root2 = put_at (segs base) bnode3 (root s);
            s1 = s\<lparr>root := root2,
                   calls := calls s @ log_calls fired1 root1 @ log_calls fired2 root2\<rparr>;
            s2 = (if path \<in> set (the_paths s1 handle)
                  then s1\<lparr>sessions :=
                         AList.update handle (removeAll path (the_paths s1 handle)) (sessions s1)\<rparr>
                  else s1)
        in (Inr (), s2))))))"

text \<open>The loop of \<open>close\<close>; an exception of \<open>delete\<close> ends it.\<close>

fun delete_each ::
  "('a, 'w) ZooKeeper \<Rightarrow> int \<Rightarrow> string list \<Rightarrow> (error + unit) \<times> ('a, 'w) ZooKeeper" where
  "delete_each s handle [] = (Inr (), s)"
| "delete_each s handle (path # paths) =
     (case delete s handle path of
        (Inl e, s1) \<Rightarrow> (Inl e, s1)
      | (Inr _, s1) \<Rightarrow> delete_each s1 handle paths)"

text \<open>
  \<open>close\<close>. The argument \<open>order\<close> is the list that \<open>list(self.sessions[handle])\<close> gives:
  the paths of the set, each once, in the order in which Python's set yields them. Nothing
  in the module fixes this order, so it is given from outside, and the statements about
  \<open>close\<close> are made for every list that holds exactly the paths of the set.
\<close>

definition close ::
  "('a, 'w) ZooKeeper \<Rightarrow> int \<Rightarrow> string list \<Rightarrow> (error + unit) \<times> ('a, 'w) ZooKeeper" where
  "close s handle order =
     (case check_handle s handle of
        Inl e \<Rightarrow> (Inl e, s)
      | Inr _ \<Rightarrow>
     (case delete_each s handle order of
        (Inl e, s1) \<Rightarrow> (Inl e, s1)
      | (Inr _, s1) \<Rightarrow>
          (Inr (), s1\<lparr>sessions := AList.delete handle (sessions s1),
                      root := clear_watchers handle (root s1)\<rparr>)))"

definition exists_zk ::
  "('a, 'w) ZooKeeper \<Rightarrow> int \<Rightarrow> string \<Rightarrow> (error + bool) \<times> ('a, 'w) ZooKeeper" where
  "exists_zk s handle path =
     (case check_handle s handle of
        Inl e \<Rightarrow> (Inl e, s)
      | Inr _ \<Rightarrow>
     (case traverse s path of
        Inr _ \<Rightarrow> (Inr True, s)
      | Inl (NoNodeException _) \<Rightarrow> (Inr False, s)
      | Inl e \<Rightarrow> (Inl e, s)))"

definition get_children ::
  "('a, 'w) ZooKeeper \<Rightarrow> int \<Rightarrow> string \<Rightarrow> 'w option
     \<Rightarrow> (error + string list) \<times> ('a, 'w) ZooKeeper" where
  "get_children s handle path watch =
     (case check_handle s handle of
        Inl e \<Rightarrow> (Inl e, s)
      | Inr _ \<Rightarrow>
     (case traverse s path of
        Inl e \<Rightarrow> (Inl e, s)
      | Inr node \<Rightarrow>
       (let node1 = (case watch of
                       None \<Rightarrow> node
                     | Some w \<Rightarrow> set_child_watchers (child_watchers node @ [(handle, w)]) node)
        in (Inr (sort (map fst (children node1))),
            s\<lparr>root := put_at (segs path) node1 (root s)\<rparr>))))"

text \<open>\<open>get\<close> returns the data and the value of \<open>ephemeralOwner\<close>, the only key of the dictionary.\<close>

definition get ::
  "int \<Rightarrow> ('a, 'w) ZooKeeper \<Rightarrow> int \<Rightarrow> string \<Rightarrow> 'w option
     \<Rightarrow> (error + string \<times> int) \<times> ('a, 'w) ZooKeeper" where
  "get EPHEMERAL s handle path watch =
     (case check_handle s handle of
        Inl e \<Rightarrow> (Inl e, s)
      | Inr _ \<Rightarrow>
     (case traverse s path of
        Inl e \<Rightarrow> (Inl e, s)
      | Inr node \<Rightarrow>
       (let node1 = (case watch of
                       None \<Rightarrow> node
                     | Some w \<Rightarrow> set_watchers (watchers node @ [(handle, w)]) node)
        in (Inr (data node1, if flags node1 AND EPHEMERAL \<noteq> 0 then 1 else 0),
            s\<lparr>root := put_at (segs path) node1 (root s)\<rparr>))))"

definition set_zk ::
  "('a, 'w) ZooKeeper \<Rightarrow> int \<Rightarrow> string \<Rightarrow> string \<Rightarrow> (error + unit) \<times> ('a, 'w) ZooKeeper" where
  "set_zk s handle path dat =
     (case check_handle s handle of
        Inl e \<Rightarrow> (Inl e, s)
      | Inr _ \<Rightarrow>
     (case traverse s path of
        Inl e \<Rightarrow> (Inl e, s)
      | Inr node \<Rightarrow>
       (let node1 = set_data dat node;
            (node2, fired) = changed node1 handle CONNECTED_STATE path;
            root2 = put_at (segs path) node2 (root s)
        in (Inr (), s\<lparr>root := root2, calls := calls s @ log_calls fired root2\<rparr>))))"

text \<open>\<open>get_acl\<close> returns the value of \<open>aversion\<close> and \<open>node.acl\<close>.\<close>

definition get_acl ::
  "('a, 'w) ZooKeeper \<Rightarrow> int \<Rightarrow> string \<Rightarrow> (error + int \<times> 'a) \<times> ('a, 'w) ZooKeeper" where
  "get_acl s handle path =
     (case check_handle s handle of
        Inl e \<Rightarrow> (Inl e, s)
      | Inr _ \<Rightarrow>
     (case traverse s path of
        Inl e \<Rightarrow> (Inl e, s)
      | Inr node \<Rightarrow> (Inr (aversion node, acl node), s)))"

definition set_acl ::
  "('a, 'w) ZooKeeper \<Rightarrow> int \<Rightarrow> string \<Rightarrow> int \<Rightarrow> 'a \<Rightarrow> (error + unit) \<times> ('a, 'w) ZooKeeper" where
  "set_acl s handle path aversion_arg acl_arg =
     (case check_handle s handle of
        Inl e \<Rightarrow> (Inl e, s)
      | Inr _ \<Rightarrow>
     (case traverse s path of
        Inl e \<Rightarrow> (Inl e, s)
      | Inr node \<Rightarrow>
     if aversion_arg \<noteq> aversion node then (Inl (BadVersionException ''bad version''), s)
     else
       (let node1 = set_aversion (aversion node + 1) node;
            node2 = set_acl_attr acl_arg node1
        in (Inr (), s\<lparr>root := put_at (segs path) node2 (root s)\<rparr>))))"

subsection \<open>Notions used in the statements\<close>

text \<open>A path that names a node does not end in a slash (and is not empty).\<close>

definition proper_path :: "string \<Rightarrow> bool" where
  "proper_path p = (p \<noteq> [] \<and> last p \<noteq> CHR ''/'')"

text \<open>
  Descending the children from a node through a list of names, every one of which has to
  be a child of the node reached so far.
\<close>

fun lookup_names :: "('a, 'w) node \<Rightarrow> string list \<Rightarrow> error + ('a, 'w) node" where
  "lookup_names node [] = Inr node"
| "lookup_names node (name # names) =
     (case map_of (children node) name of
        None \<Rightarrow> Inl (NoNodeException ''no node'')
      | Some c \<Rightarrow> lookup_names c names)"

text \<open>
  The specification's resolution: the path is split on slashes, the empty pieces are left
  out, and all the others are looked up from the root.
\<close>

definition traverse_spec :: "('a, 'w) ZooKeeper \<Rightarrow> string \<Rightarrow> error + ('a, 'w) node" where
  "traverse_spec s path = lookup_names (root s) (filter (\<lambda>name. name \<noteq> []) (str_split path))"

text \<open>The attributes of a node that no deletion and no notification touches.\<close>

definition same_payload :: "('a, 'w) node \<Rightarrow> ('a, 'w) node \<Rightarrow> bool" where
  "same_payload n' n =
     (data n' = data n \<and> flags n' = flags n \<and> acl n' = acl n \<and> aversion n' = aversion n)"

text \<open>All the nodes of a tree, the root first.\<close>

fun nodes_of :: "('a, 'w) node \<Rightarrow> ('a, 'w) node list" where
  "nodes_of (Node d cs ws cws f av a as) =
     Node d cs ws cws f av a as # concat (map (\<lambda>kc. nodes_of (snd kc)) cs)"

text \<open>
  The entry that \<open>delete(path)\<close> removes: the names \<open>_traverse\<close> looks up for the text
  before the last slash, followed by the text after it.
\<close>

definition entry_of :: "string \<Rightarrow> string list" where
  "entry_of p = (case rsplit p of None \<Rightarrow> [] | Some (base, name) \<Rightarrow> segs base @ [name])"

text \<open>
  A path names an entry of the tree: it contains a slash, and the node that the text
  before the last slash resolves to has a child with the name after it. These are the
  paths that \<open>delete\<close> accepts from a live handle.
\<close>

definition names_entry :: "('a, 'w) ZooKeeper \<Rightarrow> string \<Rightarrow> bool" where
  "names_entry s p =
     (CHR ''/'' \<in> set p \<and>
      (case lookup_names (root s) (entry_of p) of Inl _ \<Rightarrow> False | Inr _ \<Rightarrow> True))"

subsection \<open>Instances\<close>

text \<open>
  In the instances ACL values and callbacks are named by strings, \<open>zookeeper.EPHEMERAL\<close>
  is the bit 1 and \<open>zc.zk.OPEN_ACL_UNSAFE\<close> is the string of this name. The first one is a
  tree with one child \<open>a\<close> holding \<open>x\<close>, served under the default connection string of
  \<open>setUp\<close>.
\<close>

definition tree0 :: "(string, string) node" where
  "tree0 = Node [] [(''a'', Node ''x'' [] [] [] 0 0 ''OPEN_ACL_UNSAFE'' None)] [] [] 0 0
             ''OPEN_ACL_UNSAFE'' None"

definition zk0 :: "(string, string) ZooKeeper" where
  "zk0 = ZooKeeper_init ''zookeeper.example.com:2181'' tree0"

text \<open>The instance after \<open>init\<close> has opened session 0.\<close>

definition zk1 :: "(string, string) ZooKeeper" where
  "zk1 = zk0\<lparr>sessions := [(0, [])]\<rparr>"

text \<open>
  Session 0 has created a node with the path \<open>/\<close> (a child of the root whose name is
  empty) and then asked for the children of \<open>/\<close> with the watch \<open>cb\<close>.
\<close>

definition zk_slash :: "(string, string) ZooKeeper" where
  "zk_slash =
     snd (get_children (snd (create 1 ''OPEN_ACL_UNSAFE'' zk1 0 ''/'' ''d'' ''OPEN_ACL_UNSAFE'' 0))
            0 ''/'' (Some ''cb''))"

text \<open>
  Session 0 watches the data and the children of \<open>/a\<close> and the children of the root.
\<close>

definition zk_watch :: "(string, string) ZooKeeper" where
  "zk_watch =
     snd (get_children
            (snd (get_children (snd (get 1 zk1 0 ''/a'' (Some ''on_data'')))
                    0 ''/a'' (Some ''on_children'')))
            0 ''/'' (Some ''on_parent''))"

text \<open>
  Session 0 has created the ephemeral node \<open>/e\<close>, session 1 has deleted it, and session 0
  has created it again as \<open>//e\<close>: both paths are in the set of session 0 and resolve to
  the same node.
\<close>

definition zk_twice :: "(string, string) ZooKeeper" where
  "zk_twice =
     snd (create 1 ''OPEN_ACL_UNSAFE''
            (snd (delete
                    (snd (create 1 ''OPEN_ACL_UNSAFE''
                            (snd (init zk1 ''zookeeper.example.com:2181'' None))
                            0 ''/e'' ''d'' ''OPEN_ACL_UNSAFE'' 1))
                    1 ''/e''))
            0 ''//e'' ''d'' ''OPEN_ACL_UNSAFE'' 1)"

text \<open>
  Session 0 has created the ephemeral node \<open>/e\<close> and session 1 has deleted it: the path is
  still in the set of session 0.
\<close>

definition zk_stale :: "(string, string) ZooKeeper" where
  "zk_stale =
     snd (delete
            (snd (create 1 ''OPEN_ACL_UNSAFE''
                    (snd (init zk1 ''zookeeper.example.com:2181'' None))
                    0 ''/e'' ''d'' ''OPEN_ACL_UNSAFE'' 1))
            1 ''/e'')"

text \<open>
  Session 0 has created the ephemeral node \<open>/e\<close>, the plain nodes \<open>/e/c\<close> and \<open>/k\<close>, and
  watches \<open>/a\<close>; session 1 watches \<open>/a\<close> too.
\<close>

definition zk_nested :: "(string, string) ZooKeeper" where
  "zk_nested =
     snd (get 1
       (snd (get 1
         (snd (create 1 ''OPEN_ACL_UNSAFE''
           (snd (create 1 ''OPEN_ACL_UNSAFE''
             (snd (create 1 ''OPEN_ACL_UNSAFE''
               (snd (init zk1 ''zookeeper.example.com:2181'' None))
               0 ''/e'' ''d'' ''OPEN_ACL_UNSAFE'' 1))
             0 ''/e/c'' ''inner'' ''OPEN_ACL_UNSAFE'' 0))
           0 ''/k'' ''kept'' ''OPEN_ACL_UNSAFE'' 0))
         0 ''/a'' (Some ''w0'')))
       1 ''/a'' (Some ''w1''))"

text \<open>
  Session 0 has created the ephemeral nodes \<open>/e\<close> and \<open>/f\<close> and the plain node \<open>/k\<close>.
\<close>

definition zk_pair :: "(string, string) ZooKeeper" where
  "zk_pair =
     snd (create 1 ''OPEN_ACL_UNSAFE''
       (snd (create 1 ''OPEN_ACL_UNSAFE''
         (snd (create 1 ''OPEN_ACL_UNSAFE'' zk1 0 ''/e'' ''d'' ''OPEN_ACL_UNSAFE'' 1))
         0 ''/f'' ''d'' ''OPEN_ACL_UNSAFE'' 1))
       0 ''/k'' ''kept'' ''OPEN_ACL_UNSAFE'' 0)"

section \<open>Auxiliary facts\<close>

subsection \<open>Splitting paths\<close>

lemma str_split_not_Nil: "str_split s \<noteq> []"
  by (induction s) (auto split: list.splits)

lemma str_split_no_slash: "CHR ''/'' \<notin> set n \<Longrightarrow> str_split n = [n]"
  by (induction n) auto

lemma str_split_append: "str_split (b @ CHR ''/'' # n) = str_split b @ str_split n"
  by (induction b) (auto split: list.splits simp: str_split_not_Nil)

lemma rsplit_SomeD:
  assumes "rsplit p = Some (b, n)"
  shows "p = b @ CHR ''/'' # n" and "CHR ''/'' \<notin> set n"
proof -
  let ?P = "\<lambda>c. c \<noteq> CHR ''/''"
  from assms have mem: "CHR ''/'' \<in> set p"
    and b: "b = rev (tl (dropWhile ?P (rev p)))"
    and n: "n = rev (takeWhile ?P (rev p))"
    by (auto simp: rsplit_def split: if_splits)
  from mem have "dropWhile ?P (rev p) \<noteq> []" by simp
  moreover have "hd (dropWhile ?P (rev p)) = CHR ''/''"
    using calculation hd_dropWhile[of ?P "rev p"] by auto
  ultimately have d: "dropWhile ?P (rev p) = CHR ''/'' # rev b"
    unfolding b by (cases "dropWhile ?P (rev p)") auto
  have "rev p = takeWhile ?P (rev p) @ dropWhile ?P (rev p)" by simp
  then have "rev p = rev n @ CHR ''/'' # rev b" unfolding n d by simp
  then have "rev (rev p) = rev (rev n @ CHR ''/'' # rev b)" by (rule arg_cong)
  then show "p = b @ CHR ''/'' # n" by simp
  show "CHR ''/'' \<notin> set n" unfolding n using set_takeWhileD[of _ ?P "rev p"] by auto
qed

lemma rsplit_None: "rsplit p = None \<longleftrightarrow> CHR ''/'' \<notin> set p"
  by (simp add: rsplit_def)

lemma rsplit_tl_split:
  assumes "rsplit p = Some (b, n)"
  shows "tl (str_split p) = tl (str_split b) @ [n]"
  using rsplit_SomeD[OF assms] str_split_not_Nil[of b]
  by (simp add: str_split_append str_split_no_slash)

lemma rsplit_segs:
  assumes "rsplit p = Some (b, n)"
  shows "segs p = segs b @ (if n = [] then [] else [n])"
  by (simp add: segs_def rsplit_tl_split[OF assms])

lemma rsplit_name_empty:
  assumes "rsplit p = Some (b, n)"
  shows "n = [] \<longleftrightarrow> last p = CHR ''/''"
  using rsplit_SomeD[OF assms] by (cases n rule: rev_cases) auto

lemma descend_append:
  "descend r (ks @ ks') = (case descend r ks of Inl e \<Rightarrow> Inl e | Inr n \<Rightarrow> descend n ks')"
  by (induction r ks rule: descend.induct) (auto split: option.splits)

lemma descend_filter: "descend r (filter (\<lambda>n. n \<noteq> []) ks) = descend r ks"
  by (induction r ks rule: descend.induct) (auto split: option.splits)

lemma children_set_children [simp]: "children (set_children cs n) = cs"
  by (cases n) simp

lemma set_children_same [simp]: "set_children (children n) n = n"
  by (cases n) simp

lemma descend_put_at:
  "descend r ks = Inr n \<Longrightarrow> descend (put_at (filter (\<lambda>n. n \<noteq> []) ks) n' r) ks = Inr n'"
  by (induction r ks rule: descend.induct) (auto split: option.splits if_splits simp: update_conv')

lemma put_at_same:
  "descend r ks = Inr n \<Longrightarrow> put_at (filter (\<lambda>n. n \<noteq> []) ks) n r = r"
  by (induction r ks rule: descend.induct) (auto split: option.splits if_splits simp: update_triv)

lemma traverse_put_at:
  "traverse s p = Inr n \<Longrightarrow> traverse (s\<lparr>root := put_at (segs p) n' (root s)\<rparr>) p = Inr n'"
  by (simp add: traverse_def segs_def descend_put_at)

subsection \<open>Handles\<close>

lemma fresh_handle_props:
  "h0 \<le> fresh_handle ks h0 \<and> fresh_handle ks h0 \<notin> set ks \<and>
   (\<forall>k. h0 \<le> k \<and> k < fresh_handle ks h0 \<longrightarrow> k \<in> set ks)"
proof (induction ks h0 rule: fresh_handle.induct)
  case (1 ks h)
  show ?case
  proof (cases "h \<in> set ks")
    case True
    then have eq: "fresh_handle ks h = fresh_handle ks (h + 1)"
      by (simp add: fresh_handle.simps[of ks h])
    from 1[OF True] have ih: "h + 1 \<le> fresh_handle ks (h + 1)"
      "fresh_handle ks (h + 1) \<notin> set ks"
      "\<forall>k. h + 1 \<le> k \<and> k < fresh_handle ks (h + 1) \<longrightarrow> k \<in> set ks" by auto
    have "\<forall>k. h \<le> k \<and> k < fresh_handle ks (h + 1) \<longrightarrow> k \<in> set ks"
    proof (intro allI impI)
      fix k assume k: "h \<le> k \<and> k < fresh_handle ks (h + 1)"
      show "k \<in> set ks"
      proof (cases "k = h")
        case True with \<open>h \<in> set ks\<close> show ?thesis by simp
      next
        case False with k have "h + 1 \<le> k" by simp
        with k ih(3) show ?thesis by blast
      qed
    qed
    with ih show ?thesis unfolding eq by simp
  next
    case False
    then have eq: "fresh_handle ks h = h" by (simp add: fresh_handle.simps[of ks h])
    have "h \<le> h \<and> h \<notin> set ks \<and> (\<forall>k. h \<le> k \<and> k < h \<longrightarrow> k \<in> set ks)"
      using False by auto
    then show ?thesis unfolding eq .
  qed
qed

lemma map_of_None_fst: "map_of al k = None \<longleftrightarrow> k \<notin> set (map fst al)"
  by (simp add: map_of_eq_None_iff)

lemma init_unfold:
  "init s addr watch =
     (Inr (),
      (assert_zk (addr = connection_string s) addr s)
        \<lparr>sessions := AList.update (fresh_handle (map fst (sessions s)) 0) [] (sessions s),
         calls := calls s @
           (case watch of
              None \<Rightarrow> []
            | Some w \<Rightarrow> [(Invoke w (fresh_handle (map fst (sessions s)) 0)
                             SESSION_EVENT CONNECTED_STATE [], root s)])\<rparr>)"
  by (cases watch) (simp_all add: init_def assert_zk_def Let_def log_calls_def)

section \<open>Opening a session\<close>

text \<open>
  Claim C10. For an \<open>init\<close> call whose address equals the connection string, the handle
  is the lowest non-negative integer that is not in the session table; the session is
  registered with an empty set of paths; the call returns \<open>None\<close> (no error, no handle);
  the handle reaches the caller only as the first argument of the watch callback, when one
  was given. Nothing is printed.
\<close>

theorem init_matching_address:
  assumes "addr = connection_string s"
  shows "\<exists>h. 0 \<le> h \<and> map_of (sessions s) h = None \<and>
              (\<forall>k. 0 \<le> k \<and> k < h \<longrightarrow> map_of (sessions s) k \<noteq> None) \<and>
              init s addr watch =
                (Inr (),
                 s\<lparr>sessions := AList.update h [] (sessions s),
                   calls := calls s @
                     (case watch of
                        None \<Rightarrow> []
                      | Some w \<Rightarrow> [(Invoke w h SESSION_EVENT CONNECTED_STATE [], root s)])\<rparr>) \<and>
              map_of (sessions (snd (init s addr watch))) h = Some []"
proof -
  let ?h = "fresh_handle (map fst (sessions s)) 0"
  have "0 \<le> ?h" "map_of (sessions s) ?h = None"
    "\<forall>k. 0 \<le> k \<and> k < ?h \<longrightarrow> map_of (sessions s) k \<noteq> None"
    using fresh_handle_props[of 0 "map fst (sessions s)"] by (auto simp: map_of_None_fst)
  moreover have "init s addr watch =
                (Inr (),
                 s\<lparr>sessions := AList.update ?h [] (sessions s),
                   calls := calls s @
                     (case watch of
                        None \<Rightarrow> []
                      | Some w \<Rightarrow> [(Invoke w ?h SESSION_EVENT CONNECTED_STATE [], root s)])\<rparr>)"
    using assms by (simp add: init_unfold assert_zk_def)
  moreover have "map_of (sessions (snd (init s addr watch))) ?h = Some []"
    by (simp add: init_unfold update_conv')
  ultimately show ?thesis by blast
qed

theorem init_matching_address_witness:
  "''zookeeper.example.com:2181'' = connection_string zk0 \<and>
   init zk0 ''zookeeper.example.com:2181'' (Some ''cb'') =
     (Inr (), zk0\<lparr>sessions := [(0, [])],
                  calls := [(Invoke ''cb'' 0 SESSION_EVENT CONNECTED_STATE [], tree0)]\<rparr>)"
proof -
  have c: "''zookeeper.example.com:2181'' = connection_string zk0"
    by (simp add: zk0_def ZooKeeper_init_def)
  from init_matching_address[OF c, of "Some ''cb''"]
  obtain h where h: "0 \<le> h" "\<forall>k. 0 \<le> k \<and> k < h \<longrightarrow> map_of (sessions zk0) k \<noteq> None"
    and eq: "init zk0 ''zookeeper.example.com:2181'' (Some ''cb'') =
                (Inr (),
                 zk0\<lparr>sessions := AList.update h [] (sessions zk0),
                   calls := calls zk0 @ [(Invoke ''cb'' h SESSION_EVENT CONNECTED_STATE [], root zk0)]\<rparr>)"
    by auto
  have "h = 0"
  proof (rule ccontr)
    assume "h \<noteq> 0"
    with h(1) have "0 \<le> (0::int) \<and> 0 < h" by simp
    with h(2) have "map_of (sessions zk0) 0 \<noteq> None" by blast
    then show False by (simp add: zk0_def ZooKeeper_init_def)
  qed
  with eq have "init zk0 ''zookeeper.example.com:2181'' (Some ''cb'') =
     (Inr (), zk0\<lparr>sessions := [(0, [])],
                  calls := [(Invoke ''cb'' 0 SESSION_EVENT CONNECTED_STATE [], tree0)]\<rparr>)"
    by (simp add: zk0_def ZooKeeper_init_def)
  then show ?thesis using c by (rule conjI[rotated])
qed

text \<open>
  Claim C1 says that \<open>init\<close> with another address raises and registers nothing. It does
  neither: \<open>assert_\<close> only prints.
\<close>

theorem init_mismatched_address_counterexample:
  "''elsewhere:2181'' \<noteq> connection_string zk0 \<and>
   fst (init zk0 ''elsewhere:2181'' None) = Inr () \<and>
   map_of (sessions zk0) 0 = None \<and>
   map_of (sessions (snd (init zk0 ''elsewhere:2181'' None))) 0 = Some []"
  by (simp add: init_unfold zk0_def ZooKeeper_init_def fresh_handle.simps assert_zk_def)

text \<open>
  Claim C1, amended. For an \<open>init\<close> call whose address differs from the connection string,
  the line \<open>assertion failed:  <address>\<close> is printed, no error is raised, and the session
  is registered under the lowest unused non-negative handle, as for a matching address.
\<close>

theorem init_mismatched_address:
  assumes "addr \<noteq> connection_string s"
  shows "\<exists>h. 0 \<le> h \<and> map_of (sessions s) h = None \<and>
              (\<forall>k. 0 \<le> k \<and> k < h \<longrightarrow> map_of (sessions s) k \<noteq> None) \<and>
              init s addr watch =
                (Inr (),
                 s\<lparr>stdout := stdout s @ [''assertion failed:  '' @ addr],
                   sessions := AList.update h [] (sessions s),
                   calls := calls s @
                     (case watch of
                        None \<Rightarrow> []
                      | Some w \<Rightarrow> [(Invoke w h SESSION_EVENT CONNECTED_STATE [], root s)])\<rparr>) \<and>
              map_of (sessions (snd (init s addr watch))) h = Some []"
proof -
  let ?h = "fresh_handle (map fst (sessions s)) 0"
  have "0 \<le> ?h" "map_of (sessions s) ?h = None"
    "\<forall>k. 0 \<le> k \<and> k < ?h \<longrightarrow> map_of (sessions s) k \<noteq> None"
    using fresh_handle_props[of 0 "map fst (sessions s)"] by (auto simp: map_of_None_fst)
  moreover have "init s addr watch =
                (Inr (),
                 s\<lparr>stdout := stdout s @ [''assertion failed:  '' @ addr],
                   sessions := AList.update ?h [] (sessions s),
                   calls := calls s @
                     (case watch of
                        None \<Rightarrow> []
                      | Some w \<Rightarrow> [(Invoke w ?h SESSION_EVENT CONNECTED_STATE [], root s)])\<rparr>)"
    using assms by (simp add: init_unfold assert_zk_def)
  moreover have "map_of (sessions (snd (init s addr watch))) ?h = Some []"
    by (simp add: init_unfold update_conv')
  ultimately show ?thesis by blast
qed

theorem init_mismatched_address_witness:
  "''elsewhere:2181'' \<noteq> connection_string zk0 \<and>
   init zk0 ''elsewhere:2181'' None =
     (Inr (), zk0\<lparr>stdout := [''assertion failed:  elsewhere:2181''], sessions := [(0, [])]\<rparr>)"
proof -
  have c: "''elsewhere:2181'' \<noteq> connection_string zk0"
    by (simp add: zk0_def ZooKeeper_init_def)
  from init_mismatched_address[OF c, of None]
  obtain h where h: "0 \<le> h" "\<forall>k. 0 \<le> k \<and> k < h \<longrightarrow> map_of (sessions zk0) k \<noteq> None"
    and eq: "init zk0 ''elsewhere:2181'' None =
                (Inr (),
                 zk0\<lparr>stdout := stdout zk0 @ [''assertion failed:  '' @ ''elsewhere:2181''],
                   sessions := AList.update h [] (sessions zk0),
                   calls := calls zk0 @ []\<rparr>)"
    by auto
  have "h = 0"
  proof (rule ccontr)
    assume "h \<noteq> 0"
    with h(1) have "0 \<le> (0::int) \<and> 0 < h" by simp
    with h(2) have "map_of (sessions zk0) 0 \<noteq> None" by blast
    then show False by (simp add: zk0_def ZooKeeper_init_def)
  qed
  with eq c show ?thesis by (simp add: zk0_def ZooKeeper_init_def)
qed

section \<open>Node attributes\<close>

lemma set_data_sel [simp]:
  "data (set_data v n) = v" "children (set_data v n) = children n"
  "watchers (set_data v n) = watchers n" "child_watchers (set_data v n) = child_watchers n"
  "flags (set_data v n) = flags n" "aversion (set_data v n) = aversion n"
  "acl (set_data v n) = acl n" "acls (set_data v n) = acls n"
  by (cases n; simp)+

lemma set_children_sel [simp]:
  "data (set_children v n) = data n"
  "watchers (set_children v n) = watchers n" "child_watchers (set_children v n) = child_watchers n"
  "flags (set_children v n) = flags n" "aversion (set_children v n) = aversion n"
  "acl (set_children v n) = acl n" "acls (set_children v n) = acls n"
  by (cases n; simp)+

lemma set_watchers_sel [simp]:
  "data (set_watchers v n) = data n" "children (set_watchers v n) = children n"
  "watchers (set_watchers v n) = v" "child_watchers (set_watchers v n) = child_watchers n"
  "flags (set_watchers v n) = flags n" "aversion (set_watchers v n) = aversion n"
  "acl (set_watchers v n) = acl n" "acls (set_watchers v n) = acls n"
  by (cases n; simp)+

lemma set_child_watchers_sel [simp]:
  "data (set_child_watchers v n) = data n" "children (set_child_watchers v n) = children n"
  "watchers (set_child_watchers v n) = watchers n" "child_watchers (set_child_watchers v n) = v"
  "flags (set_child_watchers v n) = flags n" "aversion (set_child_watchers v n) = aversion n"
  "acl (set_child_watchers v n) = acl n" "acls (set_child_watchers v n) = acls n"
  by (cases n; simp)+

lemma set_flags_sel [simp]:
  "data (set_flags v n) = data n" "children (set_flags v n) = children n"
  "watchers (set_flags v n) = watchers n" "child_watchers (set_flags v n) = child_watchers n"
  "flags (set_flags v n) = v" "aversion (set_flags v n) = aversion n"
  "acl (set_flags v n) = acl n" "acls (set_flags v n) = acls n"
  by (cases n; simp)+

lemma set_aversion_sel [simp]:
  "data (set_aversion v n) = data n" "children (set_aversion v n) = children n"
  "watchers (set_aversion v n) = watchers n" "child_watchers (set_aversion v n) = child_watchers n"
  "flags (set_aversion v n) = flags n" "aversion (set_aversion v n) = v"
  "acl (set_aversion v n) = acl n" "acls (set_aversion v n) = acls n"
  by (cases n; simp)+

lemma set_acl_attr_sel [simp]:
  "data (set_acl_attr v n) = data n" "children (set_acl_attr v n) = children n"
  "watchers (set_acl_attr v n) = watchers n" "child_watchers (set_acl_attr v n) = child_watchers n"
  "flags (set_acl_attr v n) = flags n" "aversion (set_acl_attr v n) = aversion n"
  "acl (set_acl_attr v n) = v" "acls (set_acl_attr v n) = acls n"
  by (cases n; simp)+

lemma set_acls_sel [simp]:
  "data (set_acls v n) = data n" "children (set_acls v n) = children n"
  "watchers (set_acls v n) = watchers n" "child_watchers (set_acls v n) = child_watchers n"
  "flags (set_acls v n) = flags n" "aversion (set_acls v n) = aversion n"
  "acl (set_acls v n) = acl n" "acls (set_acls v n) = Some v"
  by (cases n; simp)+

subsection \<open>Live handles\<close>

lemma check_handle_live: "check_handle s h = Inr () \<longleftrightarrow> map_of (sessions s) h \<noteq> None"
  by (simp add: check_handle_def)

lemma check_handle_dead:
  "map_of (sessions s) h = None \<Longrightarrow> check_handle s h = Inl (ZooKeeperException ''handle out of range'')"
  by (simp add: check_handle_def)

lemma check_handle_root [simp]: "check_handle (s\<lparr>root := r\<rparr>) h = check_handle s h"
  by (simp add: check_handle_def)

lemma zk1_init: "snd (init zk0 ''zookeeper.example.com:2181'' None) = zk1"
  by (simp add: init_unfold zk0_def zk1_def ZooKeeper_init_def assert_zk_def fresh_handle.simps)

lemma traverse_zk1_a: "traverse zk1 ''/a'' = Inr (Node ''x'' [] [] [] 0 0 ''OPEN_ACL_UNSAFE'' None)"
  by (simp add: traverse_def zk1_def zk0_def ZooKeeper_init_def tree0_def)

section \<open>Versioned ACL updates\<close>

text \<open>
  Claim C5. For a live handle and a path that resolves to a node, \<open>set_acl\<close> with an
  \<open>aversion\<close> other than the node's raises \<open>BadVersionException\<close> and changes nothing;
  with the node's \<open>aversion\<close> it succeeds, the node then holds the new acl and its
  \<open>aversion\<close> is larger by exactly 1, which is what \<open>get_acl\<close> then returns.
\<close>

theorem set_acl_checks_version:
  assumes live: "map_of (sessions s) handle \<noteq> None"
    and ex: "traverse s path = Inr node"
  shows "(av \<noteq> aversion node \<longrightarrow>
            set_acl s handle path av a = (Inl (BadVersionException ''bad version''), s)) \<and>
         (av = aversion node \<longrightarrow>
            (\<exists>s' node'. set_acl s handle path av a = (Inr (), s') \<and>
               traverse s' path = Inr node' \<and>
               acl node' = a \<and> aversion node' = aversion node + 1 \<and>
               get_acl s' handle path = (Inr (aversion node + 1, a), s')))"
proof (intro conjI impI)
  assume "av \<noteq> aversion node"
  then show "set_acl s handle path av a = (Inl (BadVersionException ''bad version''), s)"
    using live ex by (simp add: set_acl_def check_handle_def)
next
  assume av: "av = aversion node"
  let ?n = "set_acl_attr a (set_aversion (aversion node + 1) node)"
  let ?s = "s\<lparr>root := put_at (segs path) ?n (root s)\<rparr>"
  have r: "set_acl s handle path av a = (Inr (), ?s)"
    using live ex av by (simp add: set_acl_def check_handle_def Let_def)
  have t: "traverse ?s path = Inr ?n"
    using ex by (rule traverse_put_at)
  have g: "get_acl ?s handle path = (Inr (aversion node + 1, a), ?s)"
    using live t by (simp add: get_acl_def check_handle_def)
  from r t g show "\<exists>s' node'. set_acl s handle path av a = (Inr (), s') \<and>
               traverse s' path = Inr node' \<and>
               acl node' = a \<and> aversion node' = aversion node + 1 \<and>
               get_acl s' handle path = (Inr (aversion node + 1, a), s')"
    by (intro exI[of _ ?s] exI[of _ ?n]) simp
qed

theorem set_acl_checks_version_witness:
  "map_of (sessions zk1) 0 \<noteq> None \<and>
   traverse zk1 ''/a'' = Inr (Node ''x'' [] [] [] 0 0 ''OPEN_ACL_UNSAFE'' None) \<and>
   set_acl zk1 0 ''/a'' 7 ''mine'' = (Inl (BadVersionException ''bad version''), zk1) \<and>
   (\<exists>s'. set_acl zk1 0 ''/a'' 0 ''mine'' = (Inr (), s') \<and>
         get_acl s' 0 ''/a'' = (Inr (1, ''mine''), s'))"
proof -
  have live: "map_of (sessions zk1) 0 \<noteq> None" by (simp add: zk1_def)
  note t = traverse_zk1_a
  from set_acl_checks_version[OF live t, of 7 "''mine''"]
  have bad: "set_acl zk1 0 ''/a'' 7 ''mine'' = (Inl (BadVersionException ''bad version''), zk1)"
    by simp
  from set_acl_checks_version[OF live t, of 0 "''mine''"]
  have good: "\<exists>s'. set_acl zk1 0 ''/a'' 0 ''mine'' = (Inr (), s') \<and>
         get_acl s' 0 ''/a'' = (Inr (1, ''mine''), s')"
    by auto
  from live t bad good show ?thesis by blast
qed

section \<open>Events of a node\<close>

lemma children_changed_clears:
  "child_watchers (fst (children_changed n h st p)) = [] \<and>
   snd (children_changed n h st p) = fire CHILD_EVENT st p (child_watchers n)"
  by (simp add: children_changed_def Let_def)

lemma changed_clears:
  "watchers (fst (changed n h st p)) = [] \<and>
   snd (changed n h st p) = fire CHANGED_EVENT st p (watchers n)"
  by (simp add: changed_def Let_def)

lemma deleted_keeps_child_watchers:
  "watchers (fst (deleted n h st p)) = [] \<and>
   child_watchers (fst (deleted n h st p)) = child_watchers n \<and>
   snd (deleted n h st p) = fire DELETED_EVENT st p (watchers n @ child_watchers n)"
  by (simp add: deleted_def Let_def fire_def)

section \<open>Creating nodes\<close>

lemma create_InrD:
  assumes "create E oa s h path d a f = (Inr r, s')"
  shows "\<exists>base name node.
           r = path \<and> map_of (sessions s) h \<noteq> None \<and>
           rsplit path = Some (base, name) \<and> traverse s base = Inr node \<and>
           map_of (children node) name = None \<and>
           s' = s\<lparr>root := put_at (segs base)
                         (set_child_watchers []
                            (set_children
                               (AList.update name (set_flags f (set_acls a (Node_init oa d)))
                                  (children node)) node))
                         (root s),
                  calls := calls s @
                     log_calls (fire CHILD_EVENT CONNECTED_STATE base (child_watchers node))
                       (put_at (segs base)
                         (set_child_watchers []
                            (set_children
                               (AList.update name (set_flags f (set_acls a (Node_init oa d)))
                                  (children node)) node))
                         (root s)),
                  sessions := (if f AND E \<noteq> 0
                               then AList.update h (List.insert path (the_paths s h)) (sessions s)
                               else sessions s)\<rparr>"
  using assms
  by (auto simp: create_def check_handle_def children_changed_def Let_def the_paths_def
           split: sum.splits option.splits if_splits prod.splits)

lemma traverse_split:
  assumes "rsplit path = Some (base, name)"
  shows "traverse s path =
           (case traverse s base of
              Inl e \<Rightarrow> Inl e
            | Inr b \<Rightarrow> descend b [name])"
  by (simp add: traverse_def rsplit_tl_split[OF assms] descend_append)

lemma traverse_put_base:
  assumes "traverse s base = Inr b"
  shows "descend (put_at (segs base) b' (root s)) (tl (str_split base)) = Inr b'"
  using assms by (simp add: traverse_def segs_def descend_put_at)

lemma traverse_same_state:
  "traverse s path = Inr n \<Longrightarrow> s\<lparr>root := put_at (segs path) n (root s)\<rparr> = s"
  by (simp add: traverse_def segs_def put_at_same)

text \<open>
  Claim C4 (the acl given to \<open>create\<close> is the one \<open>get_acl\<close> returns), evaluated for
  \<open>create(0, '/b', 'd', 'mine')\<close>: the call succeeds, \<open>get_acl\<close> returns
  \<open>OPEN_ACL_UNSAFE\<close>, the default of the class, with \<open>aversion\<close> 0. The value given is in
  the attribute \<open>acls\<close>, which nothing reads.
\<close>

theorem create_drops_acl:
  "fst (create 1 ''OPEN_ACL_UNSAFE'' zk1 0 ''/b'' ''d'' ''mine'' 0) = Inr ''/b'' \<and>
   fst (get_acl (snd (create 1 ''OPEN_ACL_UNSAFE'' zk1 0 ''/b'' ''d'' ''mine'' 0)) 0 ''/b'') =
     Inr (0, ''OPEN_ACL_UNSAFE'') \<and>
   traverse (snd (create 1 ''OPEN_ACL_UNSAFE'' zk1 0 ''/b'' ''d'' ''mine'' 0)) ''/b'' =
     Inr (Node ''d'' [] [] [] 0 0 ''OPEN_ACL_UNSAFE'' (Some ''mine''))"
  by (simp add: create_def get_acl_def check_handle_def traverse_def rsplit_def segs_def
        children_changed_def fire_def log_calls_def Node_init_def the_paths_def Let_def
        zk1_def zk0_def ZooKeeper_init_def tree0_def)

text \<open>
  Claim C7. After a successful \<open>create\<close> for a path that names a node (it does not end in
  a slash), \<open>get\<close> for the same handle and path returns the data given to \<open>create\<close>, and
  \<open>ephemeralOwner\<close> is 1 if the flags given contain the ephemeral bit and 0 otherwise. The
  call registers nothing and leaves the state as it is.
\<close>

theorem create_get_roundtrip:
  assumes c: "create E oa (s :: ('a, 'w) ZooKeeper) h path d a f = (Inr r, s')"
    and p: "proper_path path"
  shows "get E s' h path None = (Inr (d, if f AND E \<noteq> 0 then 1 else 0), s')"
proof -
  from create_InrD[OF c] obtain base name node where
    live: "map_of (sessions s) h \<noteq> None"
    and rs: "rsplit path = Some (base, name)"
    and tb: "traverse s base = Inr node"
    and s': "s' = s\<lparr>root := put_at (segs base)
                         (set_child_watchers []
                            (set_children
                               (AList.update name (set_flags f (set_acls a (Node_init oa d)))
                                  (children node)) node))
                         (root s),
                  calls := calls s @
                     log_calls (fire CHILD_EVENT CONNECTED_STATE base (child_watchers node))
                       (put_at (segs base)
                         (set_child_watchers []
                            (set_children
                               (AList.update name (set_flags f (set_acls a (Node_init oa d)))
                                  (children node)) node))
                         (root s)),
                  sessions := (if f AND E \<noteq> 0
                               then AList.update h (List.insert path (the_paths s h)) (sessions s)
                               else sessions s)\<rparr>"
    by blast
  let ?new = "set_flags f (set_acls a (Node_init oa d)) :: ('a, 'w) node"
  let ?node2 = "set_child_watchers []
                  (set_children (AList.update name ?new (children node)) node)"
  from p rs have name: "name \<noteq> []"
    using rsplit_name_empty[OF rs] by (simp add: proper_path_def)
  have root': "root s' = put_at (segs base) ?node2 (root s)"
    by (simp add: s')
  have "traverse s' base = Inr ?node2"
    unfolding traverse_def root' using traverse_put_base[OF tb] .
  then have t: "traverse s' path = Inr ?new"
    using name by (simp add: traverse_split[OF rs] update_conv')
  have live': "check_handle s' h = Inr ()"
    using live by (simp add: s' check_handle_def update_conv')
  have "get E s' h path None =
          (Inr (data ?new, if flags ?new AND E \<noteq> 0 then 1 else 0),
           s'\<lparr>root := put_at (segs path) ?new (root s')\<rparr>)"
    using live' t by (simp add: get_def)
  moreover have "s'\<lparr>root := put_at (segs path) ?new (root s')\<rparr> = s'"
    using t by (rule traverse_same_state)
  moreover have "data ?new = d" "flags ?new = f"
    by (simp_all add: Node_init_def)
  ultimately show ?thesis by simp
qed

theorem create_get_roundtrip_witness:
  "create 1 ''OPEN_ACL_UNSAFE'' zk1 0 ''/b'' ''d'' ''mine'' 1 =
     (Inr ''/b'', snd (create 1 ''OPEN_ACL_UNSAFE'' zk1 0 ''/b'' ''d'' ''mine'' 1)) \<and>
   proper_path ''/b'' \<and>
   get 1 (snd (create 1 ''OPEN_ACL_UNSAFE'' zk1 0 ''/b'' ''d'' ''mine'' 1)) 0 ''/b'' None =
     (Inr (''d'', 1), snd (create 1 ''OPEN_ACL_UNSAFE'' zk1 0 ''/b'' ''d'' ''mine'' 1)) \<and>
   create 1 ''OPEN_ACL_UNSAFE'' zk1 0 ''/c'' ''e'' ''mine'' 0 =
     (Inr ''/c'', snd (create 1 ''OPEN_ACL_UNSAFE'' zk1 0 ''/c'' ''e'' ''mine'' 0)) \<and>
   proper_path ''/c'' \<and>
   get 1 (snd (create 1 ''OPEN_ACL_UNSAFE'' zk1 0 ''/c'' ''e'' ''mine'' 0)) 0 ''/c'' None =
     (Inr (''e'', 0), snd (create 1 ''OPEN_ACL_UNSAFE'' zk1 0 ''/c'' ''e'' ''mine'' 0))"
proof -
  have c1: "create 1 ''OPEN_ACL_UNSAFE'' zk1 0 ''/b'' ''d'' ''mine'' 1 =
     (Inr ''/b'', snd (create 1 ''OPEN_ACL_UNSAFE'' zk1 0 ''/b'' ''d'' ''mine'' 1))"
    by (simp add: create_def check_handle_def traverse_def rsplit_def segs_def
        children_changed_def fire_def log_calls_def Node_init_def the_paths_def Let_def
        zk1_def zk0_def ZooKeeper_init_def tree0_def)
  have c0: "create 1 ''OPEN_ACL_UNSAFE'' zk1 0 ''/c'' ''e'' ''mine'' 0 =
     (Inr ''/c'', snd (create 1 ''OPEN_ACL_UNSAFE'' zk1 0 ''/c'' ''e'' ''mine'' 0))"
    by (simp add: create_def check_handle_def traverse_def rsplit_def segs_def
        children_changed_def fire_def log_calls_def Node_init_def the_paths_def Let_def
        zk1_def zk0_def ZooKeeper_init_def tree0_def)
  have p: "proper_path ''/b''" "proper_path ''/c''" by (simp_all add: proper_path_def)
  from create_get_roundtrip[OF c1 p(1)] create_get_roundtrip[OF c0 p(2)] c1 c0 p
  show ?thesis by simp
qed

text \<open>
  For a path that ends in a slash \<open>create\<close> succeeds as well; the new node is the child
  with the empty name, and \<open>get\<close> for the same path reads its parent.
\<close>

lemma create_trailing_slash_reads_parent:
  "fst (create 1 ''OPEN_ACL_UNSAFE'' zk1 0 ''/a/'' ''d'' ''mine'' 0) = Inr ''/a/'' \<and>
   fst (get 1 (snd (create 1 ''OPEN_ACL_UNSAFE'' zk1 0 ''/a/'' ''d'' ''mine'' 0)) 0 ''/a/'' None) =
     Inr (''x'', 0)"
  by (simp add: create_def get_def check_handle_def traverse_def rsplit_def segs_def
        children_changed_def fire_def log_calls_def Node_init_def the_paths_def Let_def
        zk1_def zk0_def ZooKeeper_init_def tree0_def)

section \<open>One-shot delivery\<close>

text \<open>
  Claim C2 (a registered callback is called at most once), evaluated in the instance
  \<open>zk_slash\<close>: the root holds the single child watch \<open>cb\<close>, nothing has been called yet,
  and \<open>delete(0, '/')\<close> calls \<open>cb\<close> twice, first for the deleted event and then for the
  child event. \<open>deleted\<close> does not empty \<open>child_watchers\<close>, and here the node it is called
  on is also the parent whose \<open>children_changed\<close> follows.
\<close>

theorem root_child_watch_fires_twice:
  "child_watchers (root zk_slash) = [(0, ''cb'')] \<and>
   calls zk_slash = [] \<and>
   fst (delete zk_slash 0 ''/'') = Inr () \<and>
   map fst (calls (snd (delete zk_slash 0 ''/''))) =
     [Invoke ''cb'' 0 DELETED_EVENT CONNECTED_STATE ''/'',
      Invoke ''cb'' 0 CHILD_EVENT CONNECTED_STATE []]"
  by (simp add: zk_slash_def create_def get_children_def delete_def check_handle_def
        traverse_def rsplit_def segs_def
        children_changed_def deleted_def fire_def log_calls_def Node_init_def the_paths_def Let_def
        zk1_def zk0_def ZooKeeper_init_def tree0_def)

section \<open>Resolving a path\<close>

lemma descend_lookup_names:
  "descend r ks = lookup_names r (filter (\<lambda>name. name \<noteq> []) ks)"
  by (induction r ks rule: descend.induct) (auto split: option.splits)

lemma str_split_slash: "str_split (CHR ''/'' # rest) = [] # str_split rest"
  by simp

text \<open>
  Claim C9 says that every non-empty piece of the path that is not a child of the node
  reached so far makes the traversal fail. The piece before the first slash is never looked
  up: \<open>x/a\<close> resolves to the child \<open>a\<close> of the root, though the root has no child \<open>x\<close>.
\<close>

theorem traverse_first_piece_counterexample:
  "str_split ''x/a'' = [''x'', ''a''] \<and>
   map_of (children (root zk1)) ''x'' = None \<and>
   traverse zk1 ''x/a'' = Inr (Node ''x'' [] [] [] 0 0 ''OPEN_ACL_UNSAFE'' None) \<and>
   traverse_spec zk1 ''x/a'' = Inl (NoNodeException ''no node'')"
  by (simp add: traverse_def traverse_spec_def zk1_def zk0_def ZooKeeper_init_def tree0_def)

text \<open>
  Claim C9, amended. For every path, the traversal splits it on slashes, drops the first
  piece (the text before the first slash) and descends the children from the root through
  the other pieces: every empty piece is skipped, and a non-empty piece that is not a child
  of the node reached so far gives the \<open>no node\<close> error. For a path that starts with a slash,
  and for the empty path, this is the resolution of all the pieces of the path.
\<close>

theorem traverse_skips_first_piece:
  "traverse s path = lookup_names (root s) (filter (\<lambda>name. name \<noteq> []) (tl (str_split path))) \<and>
   traverse s (CHR ''/'' # rest) = traverse_spec s (CHR ''/'' # rest) \<and>
   traverse s [] = traverse_spec s []"
  by (simp add: traverse_def traverse_spec_def descend_lookup_names)

section \<open>Deleting a node\<close>

lemma set_watchers_twice [simp]: "set_watchers v (set_watchers u n) = set_watchers v n"
  by (cases n) simp

lemma deleted_fst: "fst (deleted n h st p) = set_watchers [] n"
  by (simp add: deleted_def Let_def)

lemma deleted_snd: "snd (deleted n h st p) = fire DELETED_EVENT st p (watchers n @ child_watchers n)"
  by (simp add: deleted_def Let_def fire_def)

lemma traverse_empty_name:
  assumes "rsplit path = Some (base, [])"
  shows "traverse s path = traverse s base"
  by (simp add: traverse_split[OF assms] split: sum.splits)

lemma delete_InrD:
  assumes "delete s h path = (Inr (), s')"
  shows "\<exists>base name node bnode.
           map_of (sessions s) h \<noteq> None \<and>
           traverse s path = Inr node \<and>
           rsplit path = Some (base, name) \<and> traverse s base = Inr bnode \<and>
           map_of (children bnode) name \<noteq> None \<and>
           (name = [] \<longrightarrow> node = bnode) \<and>
           root s' = put_at (segs base)
                       (set_child_watchers []
                          (if name = []
                           then set_watchers [] (set_children (AList.delete name (children bnode)) bnode)
                           else set_children (AList.delete name (children bnode)) bnode))
                       (root s) \<and>
           calls s' = calls s @
              log_calls (fire DELETED_EVENT CONNECTED_STATE path (watchers node @ child_watchers node))
                (put_at (segs base)
                   (if name = []
                    then set_watchers [] (set_children (AList.delete name (children bnode)) bnode)
                    else set_children (AList.delete name (children bnode)) bnode)
                   (root s)) @
              log_calls (fire CHILD_EVENT CONNECTED_STATE base (child_watchers bnode)) (root s') \<and>
           sessions s' = (if path \<in> set (the_paths s h)
                          then AList.update h (removeAll path (the_paths s h)) (sessions s)
                          else sessions s) \<and>
           stdout s' = stdout s \<and> connection_string s' = connection_string s"
proof -
  from assms have lv: "map_of (sessions s) h \<noteq> None"
    by (auto simp: delete_def check_handle_def split: if_splits)
  then have ch: "check_handle s h = Inr ()" by (simp add: check_handle_def)
  from assms ch obtain node where tn: "traverse s path = Inr node"
    by (cases "traverse s path") (auto simp: delete_def)
  from assms ch tn obtain base name where rs: "rsplit path = Some (base, name)"
    by (cases "rsplit path") (auto simp: delete_def)
  from assms ch tn rs obtain bnode where tb: "traverse s base = Inr bnode"
    by (cases "traverse s base") (auto simp: delete_def)
  from assms ch tn rs tb have has_name: "map_of (children bnode) name \<noteq> None"
    by (auto simp: delete_def split: if_splits)
  have same_obj: "name = [] \<longrightarrow> node = bnode"
    using traverse_empty_name[of path base s] rs tn tb by auto
  let ?b1 = "set_children (AList.delete name (children bnode)) bnode"
  let ?b2 = "if name = [] then set_watchers [] ?b1 else ?b1"
  let ?r1 = "put_at (segs base) ?b2 (root s)"
  let ?r2 = "put_at (segs base) (set_child_watchers [] ?b2) (root s)"
  let ?s1 = "s\<lparr>root := ?r2,
               calls := calls s @
                 log_calls (fire DELETED_EVENT CONNECTED_STATE path (watchers node @ child_watchers node)) ?r1 @
                 log_calls (fire CHILD_EVENT CONNECTED_STATE base (child_watchers bnode)) ?r2\<rparr>"
  have "delete s h path =
          (Inr (), if path \<in> set (the_paths ?s1 h)
                   then ?s1\<lparr>sessions := AList.update h (removeAll path (the_paths ?s1 h)) (sessions ?s1)\<rparr>
                   else ?s1)"
    using ch tn rs tb has_name same_obj
    by (simp add: delete_def Let_def split_beta deleted_fst deleted_snd children_changed_def)
  with assms have s': "s' = (if path \<in> set (the_paths ?s1 h)
                   then ?s1\<lparr>sessions := AList.update h (removeAll path (the_paths ?s1 h)) (sessions ?s1)\<rparr>
                   else ?s1)"
    by simp
  have tp: "the_paths ?s1 h = the_paths s h" by (simp add: the_paths_def)
  show ?thesis
    apply (rule exI[of _ base], rule exI[of _ name], rule exI[of _ node], rule exI[of _ bnode])
    using lv tn rs tb has_name same_obj by (simp add: s' tp)
qed

lemma map_of_delete_same [simp]: "map_of (AList.delete k al) k = None"
  by (simp add: delete_conv')

text \<open>
  Claim C3 says that the callbacks of the deleted node are called while the node is still
  a child of its parent. \<open>delete\<close> removes the entry first: in the instance \<open>zk_watch\<close>,
  \<open>delete(0, '/a')\<close> calls \<open>on_data\<close> and \<open>on_children\<close> with a tree whose root has no
  children any more.
\<close>

theorem delete_unlinks_first_counterexample:
  "traverse zk_watch ''/a'' =
     Inr (Node ''x'' [] [(0, ''on_data'')] [(0, ''on_children'')] 0 0 ''OPEN_ACL_UNSAFE'' None) \<and>
   calls zk_watch = [] \<and>
   fst (delete zk_watch 0 ''/a'') = Inr () \<and>
   calls (snd (delete zk_watch 0 ''/a'')) =
     [(Invoke ''on_data'' 0 DELETED_EVENT CONNECTED_STATE ''/a'',
       Node [] [] [] [(0, ''on_parent'')] 0 0 ''OPEN_ACL_UNSAFE'' None),
      (Invoke ''on_children'' 0 DELETED_EVENT CONNECTED_STATE ''/a'',
       Node [] [] [] [(0, ''on_parent'')] 0 0 ''OPEN_ACL_UNSAFE'' None),
      (Invoke ''on_parent'' 0 CHILD_EVENT CONNECTED_STATE [],
       Node [] [] [] [] 0 0 ''OPEN_ACL_UNSAFE'' None)]"
  by (simp add: zk_watch_def get_def get_children_def delete_def check_handle_def
        traverse_def rsplit_def segs_def
        children_changed_def deleted_def fire_def log_calls_def the_paths_def Let_def
        zk1_def zk0_def ZooKeeper_init_def tree0_def)

text \<open>
  Claim C3, amended. A successful \<open>delete(handle, path)\<close> first removes the entry of the
  node from its parent; then the data watchers and the child watchers of the node that the
  path resolves to are called with the deleted event, in this order, and the tree they find
  has the entry already removed (for a path that does not end in a slash, the path no longer
  resolves there); after them the child watchers of the parent are called with the child
  event.
\<close>

theorem delete_unlinks_then_notifies:
  assumes "delete s h path = (Inr (), s')"
  shows "\<exists>base name node bnode snap b1 b2.
           rsplit path = Some (base, name) \<and>
           traverse s path = Inr node \<and> traverse s base = Inr bnode \<and>
           map_of (children bnode) name \<noteq> None \<and>
           calls s' = calls s @
              log_calls (fire DELETED_EVENT CONNECTED_STATE path (watchers node @ child_watchers node)) snap @
              log_calls (fire CHILD_EVENT CONNECTED_STATE base (child_watchers bnode)) (root s') \<and>
           descend snap (tl (str_split base)) = Inr b1 \<and> map_of (children b1) name = None \<and>
           (name \<noteq> [] \<longrightarrow> descend snap (tl (str_split path)) = Inl (NoNodeException ''no node'')) \<and>
           traverse s' base = Inr b2 \<and> map_of (children b2) name = None"
proof -
  from delete_InrD[OF assms] obtain base name node bnode where
    tn: "traverse s path = Inr node"
    and rs: "rsplit path = Some (base, name)"
    and tb: "traverse s base = Inr bnode"
    and has_name: "map_of (children bnode) name \<noteq> None"
    and r: "root s' = put_at (segs base)
                       (set_child_watchers []
                          (if name = []
                           then set_watchers [] (set_children (AList.delete name (children bnode)) bnode)
                           else set_children (AList.delete name (children bnode)) bnode))
                       (root s)"
    and c: "calls s' = calls s @
              log_calls (fire DELETED_EVENT CONNECTED_STATE path (watchers node @ child_watchers node))
                (put_at (segs base)
                   (if name = []
                    then set_watchers [] (set_children (AList.delete name (children bnode)) bnode)
                    else set_children (AList.delete name (children bnode)) bnode)
                   (root s)) @
              log_calls (fire CHILD_EVENT CONNECTED_STATE base (child_watchers bnode)) (root s')"
    by blast
  let ?b1 = "if name = []
             then set_watchers [] (set_children (AList.delete name (children bnode)) bnode)
             else set_children (AList.delete name (children bnode)) bnode"
  let ?snap = "put_at (segs base) ?b1 (root s)"
  let ?b2 = "set_child_watchers [] ?b1"
  have d1: "descend ?snap (tl (str_split base)) = Inr ?b1"
    using tb by (rule traverse_put_base)
  have k1: "map_of (children ?b1) name = None" by simp
  have p1: "name \<noteq> [] \<longrightarrow> descend ?snap (tl (str_split path)) = Inl (NoNodeException ''no node'')"
  proof
    assume ne: "name \<noteq> []"
    have "descend ?snap (tl (str_split path)) =
            (case descend ?snap (tl (str_split base)) of
               Inl e \<Rightarrow> Inl e
             | Inr n \<Rightarrow> descend n [name])"
      by (simp only: rsplit_tl_split[OF rs] descend_append)
    also have "\<dots> = descend ?b1 [name]"
      by (simp only: d1 sum.case)
    also have "\<dots> = Inl (NoNodeException ''no node'')"
      using ne k1 by simp
    finally show "descend ?snap (tl (str_split path)) = Inl (NoNodeException ''no node'')" .
  qed
  have d2: "traverse s' base = Inr ?b2"
    unfolding traverse_def r using tb by (rule traverse_put_base)
  have k2: "map_of (children ?b2) name = None" by simp
  from rs tn tb has_name c d1 k1 p1 d2 k2 show ?thesis by blast
qed

theorem delete_unlinks_then_notifies_witness:
  "delete zk_watch 0 ''/a'' = (Inr (), snd (delete zk_watch 0 ''/a'')) \<and>
   (\<exists>snap. calls (snd (delete zk_watch 0 ''/a'')) =
      calls zk_watch @
      log_calls (fire DELETED_EVENT CONNECTED_STATE ''/a'' [(0, ''on_data''), (0, ''on_children'')]) snap @
      log_calls (fire CHILD_EVENT CONNECTED_STATE [] [(0, ''on_parent'')])
        (root (snd (delete zk_watch 0 ''/a''))) \<and>
      descend snap (tl (str_split ''/a'')) = Inl (NoNodeException ''no node''))"
proof -
  have d: "delete zk_watch 0 ''/a'' = (Inr (), snd (delete zk_watch 0 ''/a''))"
    by (simp add: zk_watch_def get_def get_children_def delete_def check_handle_def
        traverse_def rsplit_def segs_def
        children_changed_def deleted_def fire_def log_calls_def the_paths_def Let_def
        zk1_def zk0_def ZooKeeper_init_def tree0_def)
  have rs: "rsplit ''/a'' = Some ([], ''a'')" by (simp add: rsplit_def)
  have tn: "traverse zk_watch ''/a'' =
     Inr (Node ''x'' [] [(0, ''on_data'')] [(0, ''on_children'')] 0 0 ''OPEN_ACL_UNSAFE'' None)"
    by (simp add: zk_watch_def get_def get_children_def check_handle_def
        traverse_def segs_def Let_def zk1_def zk0_def ZooKeeper_init_def tree0_def)
  have tb: "traverse zk_watch [] = Inr (root zk_watch)" by (simp add: traverse_def)
  have cw: "child_watchers (root zk_watch) = [(0, ''on_parent'')]"
    by (simp add: zk_watch_def get_def get_children_def check_handle_def
        traverse_def segs_def Let_def zk1_def zk0_def ZooKeeper_init_def tree0_def)
  from delete_unlinks_then_notifies[OF d] rs tn tb cw
  have "\<exists>snap. calls (snd (delete zk_watch 0 ''/a'')) =
      calls zk_watch @
      log_calls (fire DELETED_EVENT CONNECTED_STATE ''/a'' [(0, ''on_data''), (0, ''on_children'')]) snap @
      log_calls (fire CHILD_EVENT CONNECTED_STATE [] [(0, ''on_parent'')])
        (root (snd (delete zk_watch 0 ''/a''))) \<and>
      descend snap (tl (str_split ''/a'')) = Inl (NoNodeException ''no node'')"
    by auto
  with d show ?thesis by blast
qed

section \<open>Positions in the tree\<close>

lemma same_payload_refl [simp]: "same_payload n n"
  by (simp add: same_payload_def)

lemma same_payload_trans: "same_payload a b \<Longrightarrow> same_payload b c \<Longrightarrow> same_payload a c"
  by (simp add: same_payload_def)

lemma lookup_names_error: "lookup_names r ks = Inl e \<Longrightarrow> e = NoNodeException ''no node''"
  by (induction r ks rule: lookup_names.induct) (auto split: option.splits)

lemma traverse_lookup: "traverse s p = lookup_names (root s) (segs p)"
  by (simp add: traverse_def segs_def descend_lookup_names)

lemma lookup_put_at:
  "lookup_names r pos = Inr b \<Longrightarrow> lookup_names (put_at pos b' r) (pos @ ks) = lookup_names b' ks"
  by (induction pos arbitrary: r) (auto split: option.splits simp: update_conv')

lemma lookup_put_at_shrink:
  assumes "lookup_names r pos = Inr b"
    and "\<And>k c. map_of (children b') k = Some c \<Longrightarrow> map_of (children b) k = Some c"
    and "same_payload b' b"
    and "lookup_names (put_at pos b' r) ks = Inr n'"
  shows "\<exists>n. lookup_names r ks = Inr n \<and> same_payload n' n"
  using assms(1,4)
proof (induction pos arbitrary: r ks)
  case Nil
  then have rb: "r = b" by simp
  show ?case
  proof (cases ks)
    case Nil
    with \<open>lookup_names (put_at [] b' r) ks = Inr n'\<close> assms(3) rb show ?thesis by simp
  next
    case (Cons k ks')
    with Nil.prems(2) obtain c where c: "map_of (children b') k = Some c"
      and l: "lookup_names c ks' = Inr n'"
      by (auto split: option.splits)
    from assms(2)[OF c] l rb Cons show ?thesis by auto
  qed
next
  case (Cons k pos)
  from Cons.prems(1) obtain c where c: "map_of (children r) k = Some c"
    and lc: "lookup_names c pos = Inr b"
    by (auto split: option.splits)
  show ?case
  proof (cases ks)
    case Nil
    with Cons.prems(2) c show ?thesis by (auto simp: same_payload_def)
  next
    case (Cons k2 ks')
    show ?thesis
    proof (cases "k2 = k")
      case True
      with Cons.prems(2) c \<open>ks = k2 # ks'\<close>
      have "lookup_names (put_at pos b' c) ks' = Inr n'"
        by (simp add: update_conv')
      from Cons.IH[OF lc this] obtain n where "lookup_names c ks' = Inr n" "same_payload n' n"
        by blast
      with c True \<open>ks = k2 # ks'\<close> show ?thesis by simp
    next
      case False
      with Cons.prems(2) c \<open>ks = k2 # ks'\<close> show ?thesis
        by (auto simp: update_conv' split: option.splits)
    qed
  qed
qed

lemma lookup_put_at_survive:
  assumes "lookup_names r pos = Inr b"
    and "children b' = AList.delete name (children b)"
    and "same_payload b' b"
    and "lookup_names r ks = Inr n"
    and "\<not> prefix (pos @ [name]) ks"
  shows "\<exists>n'. lookup_names (put_at pos b' r) ks = Inr n' \<and> same_payload n' n"
  using assms(1,4,5)
proof (induction pos arbitrary: r ks)
  case Nil
  then have rb: "r = b" by simp
  show ?case
  proof (cases ks)
    case Nil
    with \<open>lookup_names r ks = Inr n\<close> assms(3) rb show ?thesis by simp
  next
    case (Cons k ks')
    with Nil.prems(3) have "k \<noteq> name" by simp
    with Nil.prems(2) Cons rb assms(2) show ?thesis
      by (auto simp: delete_conv' split: option.splits)
  qed
next
  case (Cons k pos)
  from Cons.prems(1) obtain c where c: "map_of (children r) k = Some c"
    and lc: "lookup_names c pos = Inr b"
    by (auto split: option.splits)
  show ?case
  proof (cases ks)
    case Nil
    with Cons.prems(2) c show ?thesis by (auto simp: same_payload_def)
  next
    case (Cons k2 ks')
    show ?thesis
    proof (cases "k2 = k")
      case True
      with Cons.prems(2) c \<open>ks = k2 # ks'\<close> have l: "lookup_names c ks' = Inr n" by simp
      from Cons.prems(3) True \<open>ks = k2 # ks'\<close> have np: "\<not> prefix (pos @ [name]) ks'" by simp
      from Cons.IH[OF lc l np] obtain n' where
        "lookup_names (put_at pos b' c) ks' = Inr n'" "same_payload n' n" by blast
      with c True \<open>ks = k2 # ks'\<close> show ?thesis by (simp add: update_conv')
    next
      case False
      with Cons.prems(2) c \<open>ks = k2 # ks'\<close> show ?thesis
        by (auto simp: update_conv' split: option.splits)
    qed
  qed
qed

subsection \<open>Clearing watchers\<close>

lemma map_of_map_snd:
  "map_of (map (\<lambda>kc. (fst kc, f (snd kc))) cs) k = map_option f (map_of cs k)"
  by (induction cs) auto

lemma lookup_clear_watchers:
  "lookup_names (clear_watchers h r) ks =
     (case lookup_names r ks of Inl e \<Rightarrow> Inl e | Inr n \<Rightarrow> Inr (clear_watchers h n))"
proof (induction ks arbitrary: r)
  case Nil
  show ?case by simp
next
  case (Cons k ks)
  show ?case
    by (cases r) (simp add: map_of_map_snd Cons.IH split: option.splits)
qed

lemma same_payload_clear [simp]: "same_payload (clear_watchers h n) n"
  by (cases n) (simp add: same_payload_def)

lemma nodes_of_clear_watchers:
  "n \<in> set (nodes_of (clear_watchers h r)) \<Longrightarrow>
     h \<notin> fst ` set (watchers n) \<and> h \<notin> fst ` set (child_watchers n)"
proof (induction r arbitrary: n rule: clear_watchers.induct)
  case (1 h d cs ws cws f av a as)
  from "1.prems" consider
    (self) "n = clear_watchers h (Node d cs ws cws f av a as)"
    | (child) kc where "kc \<in> set cs" "n \<in> set (nodes_of (clear_watchers h (snd kc)))"
    by auto
  then show ?case
  proof cases
    case self
    then show ?thesis by auto
  next
    case child
    then show ?thesis using "1.IH" by blast
  qed
qed

section \<open>Failing operations\<close>

lemma state_atomic: "fst (state s h) = Inl e \<Longrightarrow> snd (state s h) = s"
  by (simp add: state_def split: sum.splits)

lemma create_atomic:
  "fst (create E oa s h p d a f) = Inl e \<Longrightarrow> snd (create E oa s h p d a f) = s"
  by (auto simp: create_def Let_def split_beta split: sum.splits option.splits if_splits)

lemma delete_atomic: "fst (delete s h p) = Inl e \<Longrightarrow> snd (delete s h p) = s"
  by (auto simp: delete_def Let_def split_beta split: sum.splits option.splits if_splits)

lemma exists_atomic: "fst (exists_zk s h p) = Inl e \<Longrightarrow> snd (exists_zk s h p) = s"
  by (auto simp: exists_zk_def split: sum.splits error.splits)

lemma get_children_atomic:
  "fst (get_children s h p w) = Inl e \<Longrightarrow> snd (get_children s h p w) = s"
  by (auto simp: get_children_def Let_def split: sum.splits)

lemma get_atomic: "fst (get E s h p w) = Inl e \<Longrightarrow> snd (get E s h p w) = s"
  by (auto simp: get_def Let_def split: sum.splits)

lemma set_atomic: "fst (set_zk s h p d) = Inl e \<Longrightarrow> snd (set_zk s h p d) = s"
  by (auto simp: set_zk_def Let_def split_beta split: sum.splits)

lemma get_acl_atomic: "fst (get_acl s h p) = Inl e \<Longrightarrow> snd (get_acl s h p) = s"
  by (auto simp: get_acl_def split: sum.splits)

lemma set_acl_atomic: "fst (set_acl s h p av a) = Inl e \<Longrightarrow> snd (set_acl s h p av a) = s"
  by (auto simp: set_acl_def Let_def split: sum.splits if_splits)

lemma close_unknown_handle:
  "map_of (sessions s) h = None \<Longrightarrow>
     close s h order = (Inl (ZooKeeperException ''handle out of range''), s)"
  by (simp add: close_def check_handle_def)

lemmas zk1_eval = check_handle_def traverse_def rsplit_def segs_def zk1_def zk0_def
  ZooKeeper_init_def tree0_def

text \<open>
  \<open>init\<close> raises nothing. Each of \<open>state\<close>, \<open>create\<close>, \<open>delete\<close>, \<open>exists\<close>, \<open>get_children\<close>,
  \<open>get\<close>, \<open>set\<close>, \<open>get_acl\<close> and \<open>set_acl\<close>, when it raises, leaves the tree, the session
  table, the watchers, the output and the record of calls as they were, and so does \<open>close\<close>
  for a handle that is not in the table.
\<close>

lemma failure_leaves_state:
  "fst (init s addr w) = Inr () \<and>
   (fst (state s h) = Inl e \<longrightarrow> snd (state s h) = s) \<and>
   (fst (create E oa s h p d a f) = Inl e \<longrightarrow> snd (create E oa s h p d a f) = s) \<and>
   (fst (delete s h p) = Inl e \<longrightarrow> snd (delete s h p) = s) \<and>
   (fst (exists_zk s h p) = Inl e \<longrightarrow> snd (exists_zk s h p) = s) \<and>
   (fst (get_children s h p w) = Inl e \<longrightarrow> snd (get_children s h p w) = s) \<and>
   (fst (get E s h p w) = Inl e \<longrightarrow> snd (get E s h p w) = s) \<and>
   (fst (set_zk s h p d) = Inl e \<longrightarrow> snd (set_zk s h p d) = s) \<and>
   (fst (get_acl s h p) = Inl e \<longrightarrow> snd (get_acl s h p) = s) \<and>
   (fst (set_acl s h p av a) = Inl e \<longrightarrow> snd (set_acl s h p av a) = s) \<and>
   (map_of (sessions s) h = None \<longrightarrow>
      close s h order = (Inl (ZooKeeperException ''handle out of range''), s))"
  using state_atomic[of s h e] create_atomic[of E oa s h p d a f e] delete_atomic[of s h p e]
    exists_atomic[of s h p e] get_children_atomic[of s h p w e] get_atomic[of E s h p w e]
    set_atomic[of s h p d e] get_acl_atomic[of s h p e] set_acl_atomic[of s h p av a e]
    close_unknown_handle[of s h order]
  by (simp add: init_unfold)

lemmas zk_eval = create_def delete_def get_def init_unfold assert_zk_def
  fresh_handle.simps check_handle_def traverse_def rsplit_def segs_def Node_init_def
  children_changed_def deleted_def fire_def log_calls_def the_paths_def Let_def
  zk1_def zk0_def ZooKeeper_init_def tree0_def

text \<open>
  Claim C6 (an operation that raises has changed nothing), evaluated for \<open>close(0)\<close> in
  the instance \<open>zk_twice\<close>. The set of session 0 holds \<open>//e\<close> and \<open>/e\<close>, which resolve to
  one node. In either order the first deletion removes the node, the second raises
  \<open>NoNodeException\<close>, and \<open>close\<close> ends with this error: the node is gone, the path deleted
  first is out of the set, and session 0 is still in the table.
\<close>

theorem close_fails_half_done:
  "the_paths zk_twice 0 = [''//e'', ''/e''] \<and>
   traverse zk_twice ''/e'' =
     Inr (Node ''d'' [] [] [] 1 0 ''OPEN_ACL_UNSAFE'' (Some ''OPEN_ACL_UNSAFE'')) \<and>
   fst (close zk_twice 0 [''//e'', ''/e'']) = Inl (NoNodeException ''no node'') \<and>
   traverse (snd (close zk_twice 0 [''//e'', ''/e''])) ''/e'' = Inl (NoNodeException ''no node'') \<and>
   map_of (sessions (snd (close zk_twice 0 [''//e'', ''/e'']))) 0 = Some [''/e''] \<and>
   fst (close zk_twice 0 [''/e'', ''//e'']) = Inl (NoNodeException ''no node'') \<and>
   traverse (snd (close zk_twice 0 [''/e'', ''//e''])) ''/e'' = Inl (NoNodeException ''no node'') \<and>
   map_of (sessions (snd (close zk_twice 0 [''/e'', ''//e'']))) 0 = Some [''//e'']"
  by (simp add: zk_twice_def close_def zk_eval)

section \<open>Closing a session\<close>

lemma delete_tree:
  assumes "delete s h p = (Inr (), s')"
  shows "lookup_names (root s') ks = Inr n' \<Longrightarrow>
           \<exists>n. lookup_names (root s) ks = Inr n \<and> same_payload n' n"
    and "lookup_names (root s') (entry_of p) = Inl (NoNodeException ''no node'')"
    and "lookup_names (root s) ks = Inr n \<Longrightarrow> \<not> prefix (entry_of p) ks \<Longrightarrow>
           \<exists>n'. lookup_names (root s') ks = Inr n' \<and> same_payload n' n"
    and "map_of (sessions s') h \<noteq> None"
proof -
  from delete_InrD[OF assms] obtain base name node bnode where
    lv: "map_of (sessions s) h \<noteq> None"
    and rs: "rsplit p = Some (base, name)"
    and tb: "traverse s base = Inr bnode"
    and r: "root s' = put_at (segs base)
                       (set_child_watchers []
                          (if name = []
                           then set_watchers [] (set_children (AList.delete name (children bnode)) bnode)
                           else set_children (AList.delete name (children bnode)) bnode))
                       (root s)"
    and ss: "sessions s' = (if p \<in> set (the_paths s h)
                          then AList.update h (removeAll p (the_paths s h)) (sessions s)
                          else sessions s)"
    by blast
  let ?b3 = "set_child_watchers []
               (if name = []
                then set_watchers [] (set_children (AList.delete name (children bnode)) bnode)
                else set_children (AList.delete name (children bnode)) bnode)"
  have lb: "lookup_names (root s) (segs base) = Inr bnode"
    using tb by (simp add: traverse_lookup)
  have ch: "children ?b3 = AList.delete name (children bnode)" by simp
  have sp: "same_payload ?b3 bnode" by (simp add: same_payload_def)
  have sub: "\<And>k c. map_of (children ?b3) k = Some c \<Longrightarrow> map_of (children bnode) k = Some c"
    unfolding ch by (simp add: delete_conv' split: if_splits)
  have en: "entry_of p = segs base @ [name]" by (simp add: entry_of_def rs)
  show "lookup_names (root s') ks = Inr n' \<Longrightarrow>
           \<exists>n. lookup_names (root s) ks = Inr n \<and> same_payload n' n"
    unfolding r using lookup_put_at_shrink[OF lb sub sp] by blast
  have "lookup_names (root s') (segs base @ [name]) = lookup_names ?b3 [name]"
    unfolding r using lb by (rule lookup_put_at)
  then show "lookup_names (root s') (entry_of p) = Inl (NoNodeException ''no node'')"
    unfolding en by simp
  show "lookup_names (root s) ks = Inr n \<Longrightarrow> \<not> prefix (entry_of p) ks \<Longrightarrow>
           \<exists>n'. lookup_names (root s') ks = Inr n' \<and> same_payload n' n"
    unfolding r en using lookup_put_at_survive[OF lb ch sp] by blast
  show "map_of (sessions s') h \<noteq> None"
    using lv by (simp add: ss update_conv')
qed

lemma delete_each_tree:
  "delete_each s h ps = (Inr (), s') \<Longrightarrow>
     (\<forall>ks n'. lookup_names (root s') ks = Inr n' \<longrightarrow>
               (\<exists>n. lookup_names (root s) ks = Inr n \<and> same_payload n' n)) \<and>
     (\<forall>p \<in> set ps. lookup_names (root s') (entry_of p) = Inl (NoNodeException ''no node'')) \<and>
     (\<forall>ks n. lookup_names (root s) ks = Inr n \<and> (\<forall>p \<in> set ps. \<not> prefix (entry_of p) ks) \<longrightarrow>
              (\<exists>n'. lookup_names (root s') ks = Inr n' \<and> same_payload n' n))"
proof (induction ps arbitrary: s)
  case Nil
  then show ?case by auto
next
  case (Cons p ps)
  from Cons.prems obtain s1 where d: "delete s h p = (Inr (), s1)"
    and de: "delete_each s1 h ps = (Inr (), s')"
    by (auto split: prod.splits sum.splits)
  note ih = Cons.IH[OF de]
  note dt = delete_tree[OF d]
  have R: "\<forall>ks n'. lookup_names (root s') ks = Inr n' \<longrightarrow>
               (\<exists>n. lookup_names (root s) ks = Inr n \<and> same_payload n' n)"
  proof (intro allI impI)
    fix ks n' assume "lookup_names (root s') ks = Inr n'"
    with ih obtain n1 where "lookup_names (root s1) ks = Inr n1" "same_payload n' n1" by blast
    moreover from dt(1)[OF calculation(1)] obtain n where
      "lookup_names (root s) ks = Inr n" "same_payload n1 n" by blast
    ultimately show "\<exists>n. lookup_names (root s) ks = Inr n \<and> same_payload n' n"
      using same_payload_trans by blast
  qed
  have G: "\<forall>q \<in> set (p # ps). lookup_names (root s') (entry_of q) = Inl (NoNodeException ''no node'')"
  proof
    fix q assume q: "q \<in> set (p # ps)"
    show "lookup_names (root s') (entry_of q) = Inl (NoNodeException ''no node'')"
    proof (cases "q \<in> set ps")
      case True
      with ih show ?thesis by blast
    next
      case False
      with q have qp: "q = p" by simp
      show ?thesis
      proof (cases "lookup_names (root s') (entry_of p)")
        case (Inl e)
        with lookup_names_error[OF Inl] qp show ?thesis by simp
      next
        case (Inr n')
        with ih obtain n1 where "lookup_names (root s1) (entry_of p) = Inr n1" by blast
        with dt(2) show ?thesis by simp
      qed
    qed
  qed
  have S: "\<forall>ks n. lookup_names (root s) ks = Inr n \<and> (\<forall>q \<in> set (p # ps). \<not> prefix (entry_of q) ks) \<longrightarrow>
              (\<exists>n'. lookup_names (root s') ks = Inr n' \<and> same_payload n' n)"
  proof (intro allI impI)
    fix ks n assume a: "lookup_names (root s) ks = Inr n \<and> (\<forall>q \<in> set (p # ps). \<not> prefix (entry_of q) ks)"
    then have "\<not> prefix (entry_of p) ks" by simp
    from dt(3)[OF conjunct1[OF a] this] obtain n1 where
      n1: "lookup_names (root s1) ks = Inr n1" "same_payload n1 n" by blast
    from a have "\<forall>q \<in> set ps. \<not> prefix (entry_of q) ks" by simp
    with ih n1(1) obtain n' where "lookup_names (root s') ks = Inr n'" "same_payload n' n1"
      by blast
    with n1(2) show "\<exists>n'. lookup_names (root s') ks = Inr n' \<and> same_payload n' n"
      using same_payload_trans by blast
  qed
  from R G S show ?case by blast
qed

lemma close_InrD:
  assumes "close s h order = (Inr (), s')"
  shows "\<exists>s1. delete_each s h order = (Inr (), s1) \<and>
              s' = s1\<lparr>sessions := AList.delete h (sessions s1),
                       root := clear_watchers h (root s1)\<rparr>"
  using assms
  by (auto simp: close_def split: sum.splits prod.splits)

lemma entry_of_proper:
  assumes "proper_path p" and "entry_of p \<noteq> []"
  shows "segs p = entry_of p"
proof (cases "rsplit p")
  case None
  with assms(2) show ?thesis by (simp add: entry_of_def)
next
  case (Some bn)
  obtain b n where bn: "bn = (b, n)" by (cases bn)
  with Some have rs: "rsplit p = Some (b, n)" by simp
  from assms(1) rsplit_name_empty[OF rs] have "n \<noteq> []" by (simp add: proper_path_def)
  then show ?thesis by (simp add: rsplit_segs[OF rs] entry_of_def rs)
qed

lemma close_effect:
  assumes "close s h order = (Inr (), s')"
    and ord: "set order = set (the_paths s h)"
  shows "map_of (sessions s') h = None \<and>
   (\<forall>p \<in> set (the_paths s h).
      lookup_names (root s') (entry_of p) = Inl (NoNodeException ''no node'')) \<and>
   (\<forall>p \<in> set (the_paths s h).
      proper_path p \<longrightarrow> traverse s' p = Inl (NoNodeException ''no node'')) \<and>
   (\<forall>q n. traverse s q = Inr n \<and> (\<forall>p \<in> set (the_paths s h). \<not> prefix (entry_of p) (segs q)) \<longrightarrow>
      (\<exists>n'. traverse s' q = Inr n' \<and> same_payload n' n)) \<and>
   (\<forall>n \<in> set (nodes_of (root s')).
      h \<notin> fst ` set (watchers n) \<and> h \<notin> fst ` set (child_watchers n)) \<and>
   (\<exists>s1. delete_each s h order = (Inr (), s1) \<and>
         calls s' = calls s1 \<and> stdout s' = stdout s1)"
proof -
  from close_InrD[OF assms(1)] obtain s1 where
    de: "delete_each s h order = (Inr (), s1)"
    and s': "s' = s1\<lparr>sessions := AList.delete h (sessions s1),
                     root := clear_watchers h (root s1)\<rparr>"
    by blast
  note t = delete_each_tree[OF de, unfolded ord]
  have r: "root s' = clear_watchers h (root s1)" by (simp add: s')
  have c1: "map_of (sessions s') h = None"
    by (simp add: s' delete_conv')
  have c2: "\<forall>p \<in> set (the_paths s h).
      lookup_names (root s') (entry_of p) = Inl (NoNodeException ''no node'')"
    using t by (simp add: r lookup_clear_watchers)
  have c3: "\<forall>p \<in> set (the_paths s h).
      proper_path p \<longrightarrow> traverse s' p = Inl (NoNodeException ''no node'')"
  proof (intro ballI impI)
    fix p assume p: "p \<in> set (the_paths s h)" and pp: "proper_path p"
    from c2 p have l: "lookup_names (root s') (entry_of p) = Inl (NoNodeException ''no node'')"
      by blast
    then have "entry_of p \<noteq> []" by auto
    from entry_of_proper[OF pp this] l
    show "traverse s' p = Inl (NoNodeException ''no node'')"
      by (simp add: traverse_lookup)
  qed
  have c4: "\<forall>q n. traverse s q = Inr n \<and>
                 (\<forall>p \<in> set (the_paths s h). \<not> prefix (entry_of p) (segs q)) \<longrightarrow>
      (\<exists>n'. traverse s' q = Inr n' \<and> same_payload n' n)"
  proof (intro allI impI)
    fix q n
    assume a: "traverse s q = Inr n \<and>
                 (\<forall>p \<in> set (the_paths s h). \<not> prefix (entry_of p) (segs q))"
    then have "lookup_names (root s) (segs q) = Inr n \<and>
                 (\<forall>p \<in> set (the_paths s h). \<not> prefix (entry_of p) (segs q))"
      by (simp add: traverse_lookup)
    with t obtain n1 where n1: "lookup_names (root s1) (segs q) = Inr n1" "same_payload n1 n"
      by blast
    have "traverse s' q = Inr (clear_watchers h n1)"
      by (simp add: traverse_lookup r lookup_clear_watchers n1(1))
    moreover have "same_payload (clear_watchers h n1) n"
      using same_payload_trans[OF same_payload_clear n1(2)] .
    ultimately show "\<exists>n'. traverse s' q = Inr n' \<and> same_payload n' n" by blast
  qed
  have c5: "\<forall>n \<in> set (nodes_of (root s')).
      h \<notin> fst ` set (watchers n) \<and> h \<notin> fst ` set (child_watchers n)"
    unfolding r using nodes_of_clear_watchers by blast
  have c6: "\<exists>s1. delete_each s h order = (Inr (), s1) \<and>
         calls s' = calls s1 \<and> stdout s' = stdout s1"
    using de by (simp add: s')
  from c1 c2 c3 c4 c5 c6 show ?thesis by blast
qed


lemma lookup_names_append:
  "lookup_names r (ks @ ks') =
     (case lookup_names r ks of Inl e \<Rightarrow> Inl e | Inr n \<Rightarrow> lookup_names n ks')"
  by (induction r ks rule: lookup_names.induct) (auto split: option.splits)

lemma delete_succeeds:
  assumes lv: "map_of (sessions s) h \<noteq> None"
    and ne: "names_entry s p"
  shows "\<exists>s'. delete s h p = (Inr (), s')"
proof -
  from ne have "rsplit p \<noteq> None" by (simp add: names_entry_def rsplit_None)
  then obtain b n where rs: "rsplit p = Some (b, n)" by auto
  from ne rs obtain x where "lookup_names (root s) (segs b @ [n]) = Inr x"
    by (auto simp: names_entry_def entry_of_def split: sum.splits)
  then obtain bn where lb: "lookup_names (root s) (segs b) = Inr bn"
    and ch: "map_of (children bn) n = Some x"
    by (auto simp: lookup_names_append split: sum.splits option.splits)
  have tb: "traverse s b = Inr bn" using lb by (simp add: traverse_lookup)
  have tp: "traverse s p = Inr (if n = [] then bn else x)"
    using ch by (simp add: traverse_split[OF rs] tb)
  have "fst (delete s h p) = Inr ()"
    using lv ch by (simp add: delete_def check_handle_def tb tp rs Let_def split_beta)
  then show ?thesis by (cases "delete s h p") auto
qed

lemma delete_keeps_entry:
  assumes "delete s h p = (Inr (), s')"
    and "names_entry s q"
    and "\<not> prefix (entry_of p) (entry_of q)"
  shows "names_entry s' q"
proof -
  from assms(2) obtain n where "lookup_names (root s) (entry_of q) = Inr n"
    by (auto simp: names_entry_def split: sum.splits)
  from delete_tree(3)[OF assms(1) this assms(3)] assms(2)
  show ?thesis by (auto simp: names_entry_def)
qed

lemma delete_each_succeeds:
  assumes "map_of (sessions s) h \<noteq> None"
    and "\<forall>p \<in> set order. names_entry s p"
    and "distinct order"
    and "\<forall>p \<in> set order. \<forall>q \<in> set order. p \<noteq> q \<longrightarrow> \<not> prefix (entry_of p) (entry_of q)"
  shows "\<exists>s'. delete_each s h order = (Inr (), s')"
  using assms
proof (induction order arbitrary: s)
  case Nil
  show ?case by simp
next
  case (Cons p ps)
  from Cons.prems(2) have "names_entry s p" by simp
  from delete_succeeds[OF Cons.prems(1) this] obtain s1 where d: "delete s h p = (Inr (), s1)"
    by blast
  have lv1: "map_of (sessions s1) h \<noteq> None" using d by (rule delete_tree(4))
  have ne1: "\<forall>q \<in> set ps. names_entry s1 q"
  proof
    fix q assume q: "q \<in> set ps"
    with Cons.prems(3) have "p \<noteq> q" by auto
    with Cons.prems(4) q have "\<not> prefix (entry_of p) (entry_of q)" by simp
    moreover from Cons.prems(2) q have "names_entry s q" by simp
    ultimately show "names_entry s1 q" using d delete_keeps_entry by blast
  qed
  have di: "distinct ps" using Cons.prems(3) by simp
  have ap: "\<forall>p \<in> set ps. \<forall>q \<in> set ps. p \<noteq> q \<longrightarrow> \<not> prefix (entry_of p) (entry_of q)"
    using Cons.prems(4) by simp
  from Cons.IH[OF lv1 ne1 di ap] obtain s' where "delete_each s1 h ps = (Inr (), s')" by blast
  with d show ?case by simp
qed

text \<open>
  \<open>delete\<close> takes the path out of the set of the handle it is called with and of no
  other. In the instance \<open>zk_stale\<close> the set of session 0 still holds the path that session
  1 has deleted: \<open>close(0)\<close> raises \<open>NoNodeException\<close> and session 0 stays in the table. The
  statement about \<open>close\<close> below is made for sets whose paths name entries of the tree.
\<close>

lemma close_stale_path_raises:
  "map_of (sessions zk_stale) 0 = Some [''/e''] \<and>
   close zk_stale 0 [''/e''] = (Inl (NoNodeException ''no node''), zk_stale)"
  by (simp add: zk_stale_def close_def zk_eval)

text \<open>
  Claim C8 says that \<open>close\<close> leaves the nodes in the tree that the session has created
  without the ephemeral flag. In the instance \<open>zk_nested\<close> session 0 has created \<open>/e/c\<close>
  without the flag, below its ephemeral node \<open>/e\<close>; the set of the session holds \<open>/e\<close> only;
  \<open>close(0)\<close> succeeds, and \<open>/e/c\<close> is gone with \<open>/e\<close>.
\<close>

theorem close_removes_plain_child_counterexample:
  "map_of (sessions zk_nested) 0 = Some [''/e''] \<and>
   traverse zk_nested ''/e/c'' =
     Inr (Node ''inner'' [] [] [] 0 0 ''OPEN_ACL_UNSAFE'' (Some ''OPEN_ACL_UNSAFE'')) \<and>
   fst (close zk_nested 0 [''/e'']) = Inr () \<and>
   traverse (snd (close zk_nested 0 [''/e''])) ''/e/c'' = Inl (NoNodeException ''no node'')"
  by (simp add: zk_nested_def close_def zk_eval)

text \<open>
  Claim C8, amended. Let the handle be live, let every path of its ephemeral set name an
  entry of the tree, and let no two of these entries lie one at or below the other. Then
  \<open>close(handle)\<close>, in whatever order it takes the paths, raises no error, and afterwards:
  the handle is no longer in the session table; for every path of the set the entry it
  names is gone (a path that does not end in a slash no longer resolves); every path that
  resolved before and does not lead through one of these entries still resolves, to a node
  with the same data, flags, acl and aversion; no node of the tree keeps a data watcher or
  a child watcher registered with this handle; and the calls made are those of the
  deletions of the paths, run one after the other as \<open>delete\<close> runs them.
\<close>

theorem close_purges_session:
  assumes lv: "map_of (sessions s) h \<noteq> None"
    and ord: "set order = set (the_paths s h)"
    and dist: "distinct order"
    and present: "\<forall>p \<in> set (the_paths s h). names_entry s p"
    and apart: "\<forall>p \<in> set (the_paths s h). \<forall>q \<in> set (the_paths s h).
                  p \<noteq> q \<longrightarrow> \<not> prefix (entry_of p) (entry_of q)"
  shows "\<exists>s'. close s h order = (Inr (), s') \<and>
   map_of (sessions s') h = None \<and>
   (\<forall>p \<in> set (the_paths s h).
      lookup_names (root s') (entry_of p) = Inl (NoNodeException ''no node'')) \<and>
   (\<forall>p \<in> set (the_paths s h).
      proper_path p \<longrightarrow> traverse s' p = Inl (NoNodeException ''no node'')) \<and>
   (\<forall>q n. traverse s q = Inr n \<and> (\<forall>p \<in> set (the_paths s h). \<not> prefix (entry_of p) (segs q)) \<longrightarrow>
      (\<exists>n'. traverse s' q = Inr n' \<and> same_payload n' n)) \<and>
   (\<forall>n \<in> set (nodes_of (root s')).
      h \<notin> fst ` set (watchers n) \<and> h \<notin> fst ` set (child_watchers n)) \<and>
   (\<exists>s1. delete_each s h order = (Inr (), s1) \<and>
         calls s' = calls s1 \<and> stdout s' = stdout s1)"
proof -
  from delete_each_succeeds[OF lv present[folded ord] dist apart[folded ord]]
  obtain s1 where de: "delete_each s h order = (Inr (), s1)" by blast
  let ?s' = "s1\<lparr>sessions := AList.delete h (sessions s1), root := clear_watchers h (root s1)\<rparr>"
  have c: "close s h order = (Inr (), ?s')"
    using lv de by (simp add: close_def check_handle_def)
  from close_effect[OF c ord] c show ?thesis by blast
qed

theorem close_purges_session_witness:
  "map_of (sessions zk_pair) 0 \<noteq> None \<and>
   the_paths zk_pair 0 = [''/f'', ''/e''] \<and>
   names_entry zk_pair ''/e'' \<and> names_entry zk_pair ''/f'' \<and>
   \<not> prefix (entry_of ''/e'') (entry_of ''/f'') \<and>
   \<not> prefix (entry_of ''/f'') (entry_of ''/e'') \<and>
   (\<exists>s'. close zk_pair 0 [''/e'', ''/f''] = (Inr (), s') \<and>
         map_of (sessions s') 0 = None \<and>
         traverse s' ''/e'' = Inl (NoNodeException ''no node'') \<and>
         traverse s' ''/f'' = Inl (NoNodeException ''no node'') \<and>
         (\<exists>n'. traverse s' ''/k'' = Inr n' \<and> data n' = ''kept''))"
proof -
  have lv: "map_of (sessions zk_pair) 0 \<noteq> None"
    by (simp add: zk_pair_def zk_eval)
  have ps: "the_paths zk_pair 0 = [''/f'', ''/e'']"
    by (simp add: zk_pair_def zk_eval)
  have ne: "names_entry zk_pair ''/e''" "names_entry zk_pair ''/f''"
    by (simp_all add: names_entry_def entry_of_def zk_pair_def zk_eval)
  have np: "\<not> prefix (entry_of ''/e'') (entry_of ''/f'')"
    "\<not> prefix (entry_of ''/f'') (entry_of ''/e'')"
    by (simp_all add: entry_of_def rsplit_def segs_def)
  have ord: "set [''/e'', ''/f''] = set (the_paths zk_pair 0)" by (auto simp: ps)
  have dist: "distinct [''/e'', ''/f'']" by simp
  have present: "\<forall>p \<in> set (the_paths zk_pair 0). names_entry zk_pair p"
    using ne by (simp add: ps)
  have apart: "\<forall>p \<in> set (the_paths zk_pair 0). \<forall>q \<in> set (the_paths zk_pair 0).
                  p \<noteq> q \<longrightarrow> \<not> prefix (entry_of p) (entry_of q)"
    using np by (simp add: ps)
  have pp: "proper_path ''/e''" "proper_path ''/f''" by (simp_all add: proper_path_def)
  have tk: "traverse zk_pair ''/k'' =
              Inr (Node ''kept'' [] [] [] 0 0 ''OPEN_ACL_UNSAFE'' (Some ''OPEN_ACL_UNSAFE''))"
    by (simp add: zk_pair_def zk_eval)
  have nk: "\<forall>p \<in> set (the_paths zk_pair 0). \<not> prefix (entry_of p) (segs ''/k'')"
    by (simp add: ps entry_of_def rsplit_def segs_def)
  from close_purges_session[OF lv ord dist present apart]
  obtain s' where c: "close zk_pair 0 [''/e'', ''/f''] = (Inr (), s')"
    and gone: "map_of (sessions s') 0 = None"
    and unres: "\<forall>p \<in> set (the_paths zk_pair 0).
      proper_path p \<longrightarrow> traverse s' p = Inl (NoNodeException ''no node'')"
    and keep: "\<forall>q n. traverse zk_pair q = Inr n \<and>
        (\<forall>p \<in> set (the_paths zk_pair 0). \<not> prefix (entry_of p) (segs q)) \<longrightarrow>
        (\<exists>n'. traverse s' q = Inr n' \<and> same_payload n' n)"
    by blast
  from unres pp have e: "traverse s' ''/e'' = Inl (NoNodeException ''no node'')"
    "traverse s' ''/f'' = Inl (NoNodeException ''no node'')"
    by (simp_all add: ps)
  from keep tk nk obtain n' where "traverse s' ''/k'' = Inr n'"
    "same_payload n' (Node ''kept'' [] [] [] 0 0 ''OPEN_ACL_UNSAFE'' (Some ''OPEN_ACL_UNSAFE''))"
    by blast
  then have k: "\<exists>n'. traverse s' ''/k'' = Inr n' \<and> data n' = ''kept''"
    by (auto simp: same_payload_def)
  from lv ps ne np c gone e k show ?thesis by blast
qed

end
